theory Spec2Isabelle
  imports Complex_Main "HOL-Library.Word" "HOL-Library.Sublist"
begin

unbundle bit_operations_syntax

section \<open>The CW keyer library \<open>yack.c\<close>\<close>

text \<open>
  A shallow embedding of the keyer library: the Morse code table with its encoder and
  decoder, the playback routines (\<open>yackplay\<close>, \<open>yackchar\<close>, \<open>yackstring\<close>), the speed
  control, the command key scanner, message recording and the iambic keyer state machine
  \<open>yackiambic\<close>. The module's global and function-static variables are the fields of
  records that every operation takes and returns; the input pins are arguments; the calls
  that drive the key line and the dot-unit delays are written to an output trace.
\<close>

subsection \<open>Types and the macros of the header\<close>

type_synonym byte = "8 word"
type_synonym word16 = "16 word"

text \<open>
  The header \<open>yack.h\<close> is not among the sources. Its tunable constants are fields of the
  record \<open>config\<close>, so that every theorem below holds for every header. Two more fields
  stand for what C leaves undefined and the compiled firmware nevertheless computes:
  \<open>negshift b n\<close> is the value of \<open>b << n\<close> for a negative \<open>n\<close>, and \<open>divzero\<close> the value
  of \<open>(1200 / YACKBEAT) / 0\<close>.
\<close>

record config =
  YACKBEAT :: nat              \<comment> \<open>heartbeat period in ms\<close>
  MINWPM :: nat
  MAXWPM :: nat
  DEFWPM :: nat
  MAXFARN :: nat
  KEYDEBOUNCE :: nat           \<comment> \<open>debounce hold-off in ms\<close>
  YACKSECS_DEFTIMEOUT :: word16 \<comment> \<open>the value of \<open>YACKSECS(DEFTIMEOUT)\<close>, in heartbeats\<close>
  RBSIZE :: nat
  DEFCTC :: word16
  FLAGDEFAULT :: byte
  MAGPAT :: byte
  negshift :: "byte \<Rightarrow> int \<Rightarrow> byte"
  divzero :: word16

text \<open>
  Modelled from the spec: the element and gap lengths in dot units, which the header
  defines and the spec gives as Dit = 1, Dah = 3, inter-element gap = 1, inter-character
  gap = 3, inter-word gap = 7.
\<close>

definition DITLEN :: int where "DITLEN = 1"
definition DAHLEN :: int where "DAHLEN = 3"
definition IEGLEN :: int where "IEGLEN = 1"
definition ICGLEN :: int where "ICGLEN = 3"
definition IWGLEN :: int where "IWGLEN = 7"

text \<open>
  Modelled from the spec: the symbolic arguments and the flag bits of the header. The spec
  names the flags (paddle latches for dit and dah, their union for a squeeze, the dirty
  flag, the command key latch, the gates for transmitter and side tone, the paddle swap,
  the keyer mode) and fixes no bit layout; the layout chosen here gives each flag a bit
  of its own, and the symbolic arguments pairwise different values.
\<close>

definition FALSE :: byte where "FALSE = 0"
definition TRUE :: byte where "TRUE = 1"
definition OFF :: byte where "OFF = 0"
definition ON :: byte where "ON = 1"
definition UP :: byte where "UP = 1"
definition DOWN :: byte where "DOWN = 2"
definition DIT :: byte where "DIT = 1"
definition DAH :: byte where "DAH = 2"
definition WPMSPEED :: byte where "WPMSPEED = 0"
definition FARNSWORTH :: byte where "FARNSWORTH = 1"

text \<open>Bits of \<open>volflags\<close>.\<close>

definition DITLATCH :: byte where "DITLATCH = 0b00000001"
definition DAHLATCH :: byte where "DAHLATCH = 0b00000010"
definition SQUEEZED :: byte where "SQUEEZED = 0b00000011"
definition DIRTYFLAG :: byte where "DIRTYFLAG = 0b00000100"
definition CKLATCH :: byte where "CKLATCH = 0b00001000"

text \<open>Bits of \<open>yackflags\<close>; \<open>TXKEY\<close> and \<open>SIDETONE\<close> are copied into \<open>volflags\<close>.\<close>

definition PDLSWAP :: byte where "PDLSWAP = 0b00000100"
definition IAMBICA :: byte where "IAMBICA = 0b00000000"
definition IAMBICB :: byte where "IAMBICB = 0b00010000"
definition MODE :: byte where "MODE = 0b00110000"
definition SIDETONE :: byte where "SIDETONE = 0b01000000"
definition TXKEY :: byte where "TXKEY = 0b10000000"

text \<open>The enumerations of the source.\<close>

datatype iambicState_t =
  STATE_IDLE | STATE_DAHDIT_INIT | STATE_DAHDIT | STATE_IEG | STATE_ICG | STATE_IWG

datatype symbol_t = SYMBOL_NONE | SYMBOL_DIT | SYMBOL_DAH | SYMBOL_OPPOSITE

datatype pressedKeys_t = PRESSED_NONE | PRESSED_ONE | PRESSED_BOTH | PRESSED_DONT_CARE

subsection \<open>State, inputs and outputs\<close>

text \<open>The EEPROM variables (the two user words are left out: no modelled routine uses them).\<close>

record eeprom =
  magic :: byte
  flagstor :: byte
  ctcstor :: word16
  wpmstor :: byte
  fwstor :: byte
  eebuffer1 :: "byte list"
  eebuffer2 :: "byte list"

text \<open>The static variables of \<open>yackiambic\<close>.\<close>

record iambic =
  iambicState :: iambicState_t
  timer :: word16
  debounceTimer :: word16
  currentSymbol :: symbol_t
  nextSymbol :: symbol_t
  pressedKeys :: pressedKeys_t
  repeatCycle :: byte
  keystate :: byte
  buffer :: byte
  bufctr :: byte

text \<open>
  What the library does to the outside: a call of \<open>key(DOWN)\<close> or \<open>key(UP)\<close>, and a call
  of \<open>yackdelay(n)\<close>, an active wait of \<open>n\<close> dot units.
\<close>

datatype event = KeyDown | KeyUp | Delay byte

text \<open>The module's variables, the EEPROM, the keyer's statics and the output so far.\<close>

record yack =
  yackflags :: byte
  volflags :: byte
  ctcvalue :: word16
  wpmcnt :: word16
  wpm :: byte
  farnsworth :: byte
  ee :: eeprom
  fsm :: iambic
  out :: "event list"

text \<open>
  The paddle contacts as one read of the input port shows them: the first component is
  true when the contact at \<open>DITPIN\<close> is closed (the pin reads low), the second when the
  contact at \<open>DAHPIN\<close> is.
\<close>

type_synonym paddles = "bool \<times> bool"

text \<open>
  The command button as one call of \<open>yackctrlkey\<close> finds it: open; or closed and released
  again, with the paddle contacts as each round of the wait for the release sees them; or
  closed and never released, in which case the call does not return.
\<close>

datatype button = Open | Closed "paddles list" | Stuck

subsection \<open>The Morse code table\<close>

definition morse :: "byte list" where
  "morse = [
    0b11111100, 0b01111100, 0b00111100, 0b00011100, 0b00001100,
    0b00000100, 0b10000100, 0b11000100, 0b11100100, 0b11110100,
    0b01100000, 0b10001000, 0b10101000, 0b10010000, 0b01000000,
    0b00101000, 0b11010000, 0b00001000, 0b00100000, 0b01111000,
    0b10110000, 0b01001000, 0b11100000, 0b10100000, 0b11110000,
    0b01101000, 0b11011000, 0b01010000, 0b00010000, 0b11000000,
    0b00110000, 0b00011000, 0b01110000, 0b10011000, 0b10111000,
    0b11001000,
    0b00110010, 0b01010110, 0b10010100, 0b11101000, 0b11001110,
    0b11100010, 0b10101010, 0b01001010, 0b00010011, 0b01111010,
    0b10110100, 0b10110110, 0b10000110, 0b01101010, 0b00110110,
    0b01010010, 0b10001100, 0b00010110, 0b01010100, 0b10001011,
    0b01000100, 0b10101100, 0b00010100, 0b01011000]"

definition spechar :: "byte list" where
  "spechar = map of_char ''?./!,:;~$^()-@_|=#+*%&<>''"

text \<open>
  The first part of \<open>yackchar\<close>: the code of a character, \<open>0x80\<close> (the bare stop bit) when
  it has none. The loop over \<open>spechar\<close> has no \<open>break\<close>: the last match counts.
\<close>

fun spechar_scan :: "byte \<Rightarrow> nat \<Rightarrow> byte list \<Rightarrow> byte \<Rightarrow> byte" where
  "spechar_scan c i [] code = code"
| "spechar_scan c i (x # xs) code =
     spechar_scan c (Suc i) xs (if c = x then morse ! (i + 36) else code)"

definition yackchar_code :: "byte \<Rightarrow> byte" where
  "yackchar_code c =
     (let code = 0x80;
          code = (if of_char CHR ''0'' \<le> c \<and> c \<le> of_char CHR ''9''
                  then morse ! unat (c - of_char CHR ''0'') else code);
          code = (if of_char CHR ''a'' \<le> c \<and> c \<le> of_char CHR ''z''
                  then morse ! (unat (c - of_char CHR ''a'') + 10) else code);
          code = (if of_char CHR ''A'' \<le> c \<and> c \<le> of_char CHR ''Z''
                  then morse ! (unat (c - of_char CHR ''A'') + 10) else code)
      in spechar_scan c 0 spechar code)"

text \<open>
  \<open>morsechar\<close>: the character of a code, \<open>0\<close> when the table does not hold it. The loop
  returns at the first entry that matches.
\<close>

fun morsechar_scan :: "byte \<Rightarrow> nat \<Rightarrow> byte list \<Rightarrow> byte" where
  "morsechar_scan b i [] = 0"
| "morsechar_scan b i (x # xs) =
     (if x = b then
        (if i < 10 then of_char CHR ''0'' + of_nat i
         else if i < 36 then of_char CHR ''A'' + of_nat i - 10
         else spechar ! (i - 36))
      else morsechar_scan b (Suc i) xs)"

definition morsechar :: "byte \<Rightarrow> byte" where
  "morsechar b = morsechar_scan b 0 morse"

subsection \<open>Keying and delays\<close>

text \<open>
  \<open>key\<close> switches the transmitter line and the side tone; the model records the call.
  \<open>yackdelay n\<close> waits \<open>n\<close> dot units, heartbeat by heartbeat, and polls nothing.
\<close>

definition key :: "byte \<Rightarrow> yack \<Rightarrow> yack" where
  "key mode s =
     (let s = (if mode = DOWN then s\<lparr>out := out s @ [KeyDown]\<rparr> else s)
      in if mode = UP then s\<lparr>out := out s @ [KeyUp]\<rparr> else s)"

definition yackdelay :: "byte \<Rightarrow> yack \<Rightarrow> yack" where
  "yackdelay n s = s\<lparr>out := out s @ [Delay n]\<rparr>"

definition yackplay :: "byte \<Rightarrow> yack \<Rightarrow> yack" where
  "yackplay i s =
     (let s = key DOWN s;
          s = (if i = DAH then yackdelay (word_of_int DAHLEN) s
               else if i = DIT then yackdelay (word_of_int DITLEN) s
               else s)
      in key UP s)"

fun yackfarns_loop :: "nat \<Rightarrow> yack \<Rightarrow> yack" where
  "yackfarns_loop 0 s = s"
| "yackfarns_loop (Suc i) s = yackfarns_loop i (yackdelay 1 s)"

definition yackfarns :: "yack \<Rightarrow> yack" where
  "yackfarns s = yackfarns_loop (unat (farnsworth s)) s"



subsection \<open>Settings: save, inhibit, reset, initialisation, speed\<close>

definition yacksave :: "config \<Rightarrow> yack \<Rightarrow> yack" where
  "yacksave cfg s =
     (if volflags s AND DIRTYFLAG \<noteq> 0
      then s\<lparr>ee := (ee s)\<lparr>magic := MAGPAT cfg, ctcstor := ctcvalue s, wpmstor := wpm s,
                            flagstor := yackflags s, fwstor := farnsworth s\<rparr>,
             volflags := volflags s AND NOT DIRTYFLAG\<rparr>
      else s)"

definition yackinhibit :: "byte \<Rightarrow> yack \<Rightarrow> yack" where
  "yackinhibit mode s =
     (if mode \<noteq> 0
      then s\<lparr>volflags := (volflags s AND NOT (TXKEY OR SIDETONE)) OR SIDETONE\<rparr>
      else key UP (s\<lparr>volflags := (volflags s AND NOT (TXKEY OR SIDETONE))
                                  OR (yackflags s AND (TXKEY OR SIDETONE))\<rparr>))"

text \<open>
  The expression \<open>(1200 / YACKBEAT) / wpm\<close>: two integer divisions, the result stored in
  the 16-bit \<open>wpmcnt\<close>.
\<close>

definition beats :: "config \<Rightarrow> nat \<Rightarrow> word16" where
  "beats cfg w = (if w = 0 then divzero cfg else of_nat ((1200 div YACKBEAT cfg) div w))"

definition yackreset :: "config \<Rightarrow> yack \<Rightarrow> yack" where
  "yackreset cfg s =
     (let s = s\<lparr>ctcvalue := DEFCTC cfg\<rparr>;
          s = s\<lparr>wpm := of_nat (DEFWPM cfg)\<rparr>;
          s = s\<lparr>wpmcnt := beats cfg (DEFWPM cfg)\<rparr>;
          s = s\<lparr>farnsworth := 0\<rparr>;
          s = s\<lparr>yackflags := FLAGDEFAULT cfg\<rparr>;
          s = s\<lparr>volflags := volflags s OR DIRTYFLAG\<rparr>
      in yacksave cfg s)"

definition yackinit :: "config \<Rightarrow> yack \<Rightarrow> yack" where
  "yackinit cfg s =
     (let magval = magic (ee s);
          s = (if magval = MAGPAT cfg
               then (let s = s\<lparr>ctcvalue := ctcstor (ee s)\<rparr>;
                         s = s\<lparr>wpm := wpmstor (ee s)\<rparr>;
                         s = s\<lparr>wpmcnt := beats cfg (unat (wpm s))\<rparr>;
                         s = s\<lparr>farnsworth := fwstor (ee s)\<rparr>
                     in s\<lparr>yackflags := flagstor (ee s)\<rparr>)
               else yackreset cfg s)
      in yackinhibit OFF s)"

definition yackspeed :: "config \<Rightarrow> byte \<Rightarrow> byte \<Rightarrow> yack \<Rightarrow> yack" where
  "yackspeed cfg dir mode s =
     (let s = (if mode = FARNSWORTH
               then (let s = (if dir = UP \<and> farnsworth s > 0
                              then s\<lparr>farnsworth := farnsworth s - 1\<rparr> else s)
                     in if dir = DOWN \<and> unat (farnsworth s) < MAXFARN cfg
                        then s\<lparr>farnsworth := farnsworth s + 1\<rparr> else s)
               else (let s = (if dir = UP \<and> unat (wpm s) < MAXWPM cfg
                              then s\<lparr>wpm := wpm s + 1\<rparr> else s);
                         s = (if dir = DOWN \<and> unat (wpm s) > MINWPM cfg
                              then s\<lparr>wpm := wpm s - 1\<rparr> else s)
                     in s\<lparr>wpmcnt := beats cfg (unat (wpm s))\<rparr>));
          s = s\<lparr>volflags := volflags s OR DIRTYFLAG\<rparr>;
          s = yackplay DIT s;
          s = yackdelay (word_of_int IEGLEN) s;
          s = yackplay DAH s;
          s = yackdelay (word_of_int ICGLEN) s
      in yackfarns s)"

text \<open>The state before \<open>yackinit\<close>: every variable zero, the keyer idle, the EEPROM as given.\<close>

definition power_on :: "eeprom \<Rightarrow> yack" where
  "power_on e =
     \<lparr>yackflags = 0, volflags = 0, ctcvalue = 0, wpmcnt = 0, wpm = 0, farnsworth = 0,
      ee = e,
      fsm = \<lparr>iambicState = STATE_IDLE, timer = 0, debounceTimer = 0,
             currentSymbol = SYMBOL_NONE, nextSymbol = SYMBOL_NONE,
             pressedKeys = PRESSED_NONE, repeatCycle = 0, keystate = 0,
             buffer = 0, bufctr = 0\<rparr>,
      out = []\<rparr>"

subsection \<open>The command key\<close>

text \<open>
  \<open>yackctrlkey\<close>: when the button is closed the routine waits for its release, and every
  round of the wait in which a paddle is closed changes the speed and drops the latch.
  The 50 ms settling delays leave no event.
\<close>

fun wait_release :: "config \<Rightarrow> paddles list \<Rightarrow> byte \<times> yack \<Rightarrow> byte \<times> yack" where
  "wait_release cfg [] vs = vs"
| "wait_release cfg ((dit, dah) # ps) (volbfr, s) =
     (let (volbfr, s) = (if dit then (volbfr AND NOT CKLATCH, yackspeed cfg DOWN WPMSPEED s)
                         else (volbfr, s));
          (volbfr, s) = (if dah then (volbfr AND NOT CKLATCH, yackspeed cfg UP WPMSPEED s)
                         else (volbfr, s))
      in wait_release cfg ps (volbfr, s))"

definition yackctrlkey :: "config \<Rightarrow> byte \<Rightarrow> button \<Rightarrow> yack \<Rightarrow> (bool \<times> yack) option" where
  "yackctrlkey cfg mode btn s =
     (let volbfr = volflags s;
          pressed = (case btn of
                       Open \<Rightarrow> Some (volbfr, s)
                     | Closed ps \<Rightarrow>
                         (let (volbfr, s) = wait_release cfg ps (volbfr OR CKLATCH, yackinhibit ON s)
                          in Some (volbfr, yacksave cfg s))
                     | Stuck \<Rightarrow> None)
      in case pressed of
           None \<Rightarrow> None
         | Some (volbfr, s) \<Rightarrow>
             (let s = s\<lparr>volflags := volbfr\<rparr>;
                  s = (if mode = TRUE then s\<lparr>volflags := volflags s AND NOT CKLATCH\<rparr> else s)
              in Some (volbfr AND CKLATCH \<noteq> 0, s)))"

subsection \<open>Sending characters and strings\<close>

text \<open>
  The second part of \<open>yackchar\<close>. Each call of \<open>yackctrlkey\<close> takes the next entry of the
  list of button observations; when the list is used up before the routine is done, the
  result is \<open>None\<close>: the routine has not returned within the observations given. The same
  holds for \<open>yackstring\<close>, whose argument ends at its first zero byte or at the end of
  the list.
\<close>

definition yackchar_tail :: "yack \<Rightarrow> yack" where
  "yackchar_tail s = yackfarns (yackdelay (word_of_int (ICGLEN - IEGLEN)) s)"

fun yackchar_loop :: "config \<Rightarrow> byte \<Rightarrow> button list \<Rightarrow> yack \<Rightarrow> (button list \<times> yack) option" where
  "yackchar_loop cfg code [] s = (if code = 0x80 then Some ([], yackchar_tail s) else None)"
| "yackchar_loop cfg code (p # ps) s =
     (if code = 0x80 then Some (p # ps, yackchar_tail s)
      else case yackctrlkey cfg FALSE p s of
             None \<Rightarrow> None
           | Some (True, s) \<Rightarrow> Some (ps, s)
           | Some (False, s) \<Rightarrow>
               (let s = (if code AND 0x80 \<noteq> 0 then yackplay DAH s else yackplay DIT s);
                    s = yackdelay (word_of_int IEGLEN) s
                in yackchar_loop cfg (push_bit 1 code) ps s))"

definition yackchar :: "config \<Rightarrow> byte \<Rightarrow> button list \<Rightarrow> yack \<Rightarrow> (button list \<times> yack) option" where
  "yackchar cfg c ps s =
     (let code = yackchar_code c
      in if c = of_char CHR '' '' then Some (ps, yackdelay (word_of_int (IWGLEN - ICGLEN)) s)
         else yackchar_loop cfg code ps s)"

fun yackstring :: "config \<Rightarrow> byte list \<Rightarrow> button list \<Rightarrow> yack \<Rightarrow> (button list \<times> yack) option" where
  "yackstring cfg [] ps s = Some (ps, s)"
| "yackstring cfg (c # cs) [] s = (if c = 0 then Some ([], s) else None)"
| "yackstring cfg (c # cs) (p # ps) s =
     (if c = 0 then Some (p # ps, s)
      else case yackctrlkey cfg TRUE p s of
             None \<Rightarrow> None
           | Some (True, s) \<Rightarrow> Some (ps, s)
           | Some (False, s) \<Rightarrow>
               (case yackchar cfg c ps s of
                  None \<Rightarrow> None
                | Some (ps, s) \<Rightarrow> yackstring cfg cs ps s))"

subsection \<open>The iambic keyer\<close>

definition keylatch :: "paddles \<Rightarrow> yack \<Rightarrow> yack" where
  "keylatch pins s =
     (let swap = yackflags s AND PDLSWAP;
          s = (if fst pins
               then s\<lparr>volflags := volflags s OR (if swap \<noteq> 0 then DAHLATCH else DITLATCH)\<rparr>
               else s)
      in if snd pins
         then s\<lparr>volflags := volflags s OR (if swap \<noteq> 0 then DITLATCH else DAHLATCH)\<rparr>
         else s)"

text \<open>
  The head of \<open>yackiambic\<close>: both timers count down; when the debounce timer is at zero
  the paddles are read, a change of the key state starts the timer anew, and the latches
  are cleared.
\<close>

definition sample_keys :: "config \<Rightarrow> paddles \<Rightarrow> yack \<Rightarrow> yack" where
  "sample_keys cfg pins s =
     (let f = fsm s;
          f = (if timer f \<noteq> 0 then f\<lparr>timer := timer f - 1\<rparr> else f);
          f = (if debounceTimer f \<noteq> 0 then f\<lparr>debounceTimer := debounceTimer f - 1\<rparr> else f);
          s = s\<lparr>fsm := f\<rparr>
      in if debounceTimer f = 0
         then (let s = keylatch pins s;
                   s = (if keystate (fsm s) \<noteq> volflags s AND SQUEEZED
                        then s\<lparr>fsm := (fsm s)\<lparr>debounceTimer :=
                                                   of_nat (KEYDEBOUNCE cfg div YACKBEAT cfg),
                                                 keystate := volflags s AND SQUEEZED\<rparr>\<rparr>
                        else s)
               in s\<lparr>volflags := volflags s AND NOT (DITLATCH OR DAHLATCH)\<rparr>)
         else s)"

text \<open>
  The shift \<open>buffer << (7 - bufctr)\<close> that left-justifies the pattern. Its count is
  negative once more than seven elements were keyed.
\<close>

definition shl :: "config \<Rightarrow> byte \<Rightarrow> int \<Rightarrow> byte" where
  "shl cfg b n = (if 0 \<le> n then push_bit (nat n) b else negshift cfg b n)"

text \<open>
  The cases \<open>STATE_IDLE\<close>, \<open>STATE_ICG\<close> and \<open>STATE_IWG\<close> of the switch. The second
  component of the argument and of the result is the local \<open>retchar\<close>.
\<close>

definition waiting :: "config \<Rightarrow> byte \<Rightarrow> yack \<times> byte \<Rightarrow> yack \<times> byte" where
  "waiting cfg ctrl sr =
     (let (s, retchar) = sr;
          f = fsm s;
          f = (if keystate f \<noteq> 0
               then (let f = (if keystate f = DITLATCH then f\<lparr>nextSymbol := SYMBOL_DIT\<rparr>
                              else if keystate f = DAHLATCH then f\<lparr>nextSymbol := SYMBOL_DAH\<rparr>
                              else f)
                     in f\<lparr>iambicState := STATE_DAHDIT_INIT, repeatCycle := 1\<rparr>)
               else f)
      in if iambicState f \<noteq> STATE_IDLE \<and> timer f = 0
         then (if iambicState f = STATE_ICG
               then (let b = push_bit 1 (buffer f);
                         b = b OR 1;
                         b = shl cfg b (7 - uint (bufctr f));
                         retchar = morsechar b;
                         f = f\<lparr>buffer := 0, bufctr := 0\<rparr>;
                         f = f\<lparr>timer := word_of_int (IWGLEN - ICGLEN) * wpmcnt s\<rparr>
                     in (s\<lparr>fsm := f\<lparr>iambicState := STATE_IWG\<rparr>\<rparr>, retchar))
               else if iambicState f = STATE_IWG
               then (let retchar = (if ctrl = ON then of_char CHR '' '' else retchar)
                     in (s\<lparr>fsm := f\<lparr>iambicState := STATE_IDLE\<rparr>\<rparr>, retchar))
               else (s\<lparr>fsm := f\<rparr>, retchar))
         else (s\<lparr>fsm := f\<rparr>, retchar))"

text \<open>
  The case \<open>STATE_DAHDIT_INIT\<close>. Its \<open>default\<close> branch leaves the switch by \<open>continue\<close>,
  which in a \<open>do\<close> loop goes to the test of \<open>repeatCycle\<close>.
\<close>

definition dahdit_init_keys :: "yack \<Rightarrow> yack" where
  "dahdit_init_keys s =
     (let f = fsm s;
          f = (if keystate f = SQUEEZED
               then (let f = f\<lparr>pressedKeys := PRESSED_BOTH\<rparr>
                     in if yackflags s AND MODE = IAMBICB
                        then f\<lparr>nextSymbol := SYMBOL_OPPOSITE\<rparr> else f)
               else if keystate f = DITLATCH
               then (let f = f\<lparr>pressedKeys := PRESSED_ONE\<rparr>
                     in if currentSymbol f \<noteq> SYMBOL_DIT
                        then f\<lparr>nextSymbol := SYMBOL_DIT, pressedKeys := PRESSED_DONT_CARE\<rparr>
                        else f)
               else if keystate f = DAHLATCH
               then (let f = f\<lparr>pressedKeys := PRESSED_ONE\<rparr>
                     in if currentSymbol f \<noteq> SYMBOL_DAH
                        then f\<lparr>nextSymbol := SYMBOL_DAH, pressedKeys := PRESSED_DONT_CARE\<rparr>
                        else f)
               else f\<lparr>pressedKeys := PRESSED_NONE\<rparr>);
          s = key DOWN (s\<lparr>fsm := f\<rparr>)
      in s\<lparr>fsm := (fsm s)\<lparr>iambicState := STATE_DAHDIT\<rparr>\<rparr>)"

definition dahdit_init :: "yack \<Rightarrow> yack" where
  "dahdit_init s =
     (let f = fsm s;
          f = f\<lparr>currentSymbol := nextSymbol f\<rparr>;
          f = f\<lparr>nextSymbol := SYMBOL_NONE\<rparr>;
          f = f\<lparr>buffer := push_bit 1 (buffer f)\<rparr>;
          f = f\<lparr>bufctr := bufctr f + 1\<rparr>
      in case currentSymbol f of
           SYMBOL_DIT \<Rightarrow>
             dahdit_init_keys (s\<lparr>fsm := f\<lparr>timer := word_of_int DITLEN * wpmcnt s\<rparr>\<rparr>)
         | SYMBOL_DAH \<Rightarrow>
             dahdit_init_keys (s\<lparr>fsm := f\<lparr>timer := word_of_int DAHLEN * wpmcnt s,
                                            buffer := buffer f OR 1\<rparr>\<rparr>)
         | _ \<Rightarrow> s\<lparr>fsm := f\<lparr>iambicState := STATE_IDLE\<rparr>\<rparr>)"

text \<open>The cases \<open>STATE_DAHDIT\<close> and \<open>STATE_IEG\<close>.\<close>

definition track_keys :: "iambic \<Rightarrow> iambic" where
  "track_keys f =
     (case pressedKeys f of
        PRESSED_BOTH \<Rightarrow>
          (if keystate f = 0 then f\<lparr>pressedKeys := PRESSED_NONE\<rparr>
           else if keystate f \<noteq> SQUEEZED then f\<lparr>pressedKeys := PRESSED_ONE\<rparr>
           else f)
      | PRESSED_ONE \<Rightarrow>
          (if keystate f = SQUEEZED
           then f\<lparr>nextSymbol := SYMBOL_OPPOSITE, pressedKeys := PRESSED_DONT_CARE\<rparr>
           else if keystate f = 0 then f\<lparr>pressedKeys := PRESSED_NONE\<rparr>
           else f)
      | PRESSED_NONE \<Rightarrow>
          (if keystate f = SQUEEZED
           then f\<lparr>nextSymbol := SYMBOL_OPPOSITE, pressedKeys := PRESSED_DONT_CARE\<rparr>
           else if keystate f = DITLATCH
           then f\<lparr>nextSymbol := SYMBOL_DIT, pressedKeys := PRESSED_DONT_CARE\<rparr>
           else if keystate f = DAHLATCH
           then f\<lparr>nextSymbol := SYMBOL_DAH, pressedKeys := PRESSED_DONT_CARE\<rparr>
           else f)
      | PRESSED_DONT_CARE \<Rightarrow> f)"

definition elementing :: "yack \<Rightarrow> yack" where
  "elementing s =
     (let f = track_keys (fsm s)
      in if timer f = 0
         then (if iambicState f = STATE_DAHDIT
               then (let f = (if pressedKeys f = PRESSED_BOTH
                              then f\<lparr>nextSymbol := SYMBOL_OPPOSITE,
                                     pressedKeys := PRESSED_DONT_CARE\<rparr>
                              else f);
                         s = key UP (s\<lparr>fsm := f\<rparr>)
                     in s\<lparr>fsm := (fsm s)\<lparr>timer := word_of_int IEGLEN * wpmcnt s,
                                          iambicState := STATE_IEG\<rparr>\<rparr>)
               else (let f = (if pressedKeys f = PRESSED_ONE
                              then (if keystate f = DITLATCH then f\<lparr>nextSymbol := SYMBOL_DIT\<rparr>
                                    else if keystate f = DAHLATCH
                                    then f\<lparr>nextSymbol := SYMBOL_DAH\<rparr>
                                    else f\<lparr>nextSymbol := SYMBOL_NONE\<rparr>)
                              else f);
                         f = (if nextSymbol f = SYMBOL_OPPOSITE
                              then (if currentSymbol f = SYMBOL_DIT
                                    then f\<lparr>nextSymbol := SYMBOL_DAH\<rparr>
                                    else f\<lparr>nextSymbol := SYMBOL_DIT\<rparr>)
                              else f)
                     in if nextSymbol f = SYMBOL_NONE
                        then s\<lparr>fsm := f\<lparr>iambicState := STATE_ICG,
                                         timer := word_of_int (ICGLEN - IEGLEN - 1) * wpmcnt s\<rparr>\<rparr>
                        else s\<lparr>fsm := f\<lparr>iambicState := STATE_DAHDIT_INIT,
                                         repeatCycle := 1\<rparr>\<rparr>))
         else s\<lparr>fsm := f\<rparr>)"

text \<open>One round of the \<open>do\<close> loop, and the loop.\<close>

definition cycle :: "config \<Rightarrow> byte \<Rightarrow> yack \<times> byte \<Rightarrow> yack \<times> byte" where
  "cycle cfg ctrl sr =
     (let (s, retchar) = sr;
          s = s\<lparr>fsm := (fsm s)\<lparr>repeatCycle := 0\<rparr>\<rparr>
      in case iambicState (fsm s) of
           STATE_IDLE \<Rightarrow> waiting cfg ctrl (s, retchar)
         | STATE_ICG \<Rightarrow> waiting cfg ctrl (s, retchar)
         | STATE_IWG \<Rightarrow> waiting cfg ctrl (s, retchar)
         | STATE_DAHDIT_INIT \<Rightarrow> (dahdit_init s, retchar)
         | STATE_DAHDIT \<Rightarrow> (elementing s, retchar)
         | STATE_IEG \<Rightarrow> (elementing s, retchar))"

function fsm_loop :: "config \<Rightarrow> byte \<Rightarrow> yack \<times> byte \<Rightarrow> yack \<times> byte" where
  "fsm_loop cfg ctrl sr =
     (let sr = cycle cfg ctrl sr
      in if repeatCycle (fsm (fst sr)) \<noteq> 0 then fsm_loop cfg ctrl sr else sr)"
  by pat_completeness auto
termination
proof (relation "measure (\<lambda>(cfg, ctrl, sr).
                   if iambicState (fsm (fst sr)) = STATE_DAHDIT_INIT then 0 else 1)")
  show "wf (measure (\<lambda>(cfg :: config, ctrl :: byte, sr :: yack \<times> byte).
              if iambicState (fsm (fst sr)) = STATE_DAHDIT_INIT then 0 else (1 :: nat)))"
    by simp
next
  fix cfg :: config and ctrl :: byte and sr x :: "yack \<times> byte"
  assume x: "x = cycle cfg ctrl sr" and r: "repeatCycle (fsm (fst x)) \<noteq> 0"
  obtain s c where sr: "sr = (s, c)" by (cases sr)
  have tk: "iambicState (track_keys f) = iambicState f \<and> timer (track_keys f) = timer f
            \<and> repeatCycle (track_keys f) = repeatCycle f" for f
    by (simp add: track_keys_def split: pressedKeys_t.splits)
  have "iambicState (fsm s) \<noteq> STATE_DAHDIT_INIT
        \<and> iambicState (fsm (fst (cycle cfg ctrl (s, c)))) = STATE_DAHDIT_INIT"
    using r unfolding x sr
    by (cases "iambicState (fsm s)")
       (auto simp: cycle_def waiting_def dahdit_init_def dahdit_init_keys_def elementing_def
                   key_def Let_def tk
             split: if_splits symbol_t.splits)
  then show "((cfg, ctrl, x), (cfg, ctrl, sr))
             \<in> measure (\<lambda>(cfg, ctrl, sr).
                 if iambicState (fsm (fst sr)) = STATE_DAHDIT_INIT then 0 else 1)"
    by (simp add: x sr)
qed

declare fsm_loop.simps [simp del]

definition yackiambic :: "config \<Rightarrow> paddles \<Rightarrow> byte \<Rightarrow> yack \<Rightarrow> yack \<times> byte" where
  "yackiambic cfg pins ctrl s = fsm_loop cfg ctrl (sample_keys cfg pins s, 0)"

text \<open>
  The host loop: \<open>yackiambic\<close> once per heartbeat, the paddles as each heartbeat finds
  them; the result is the final state and the characters returned, heartbeat by heartbeat.
\<close>

fun heartbeats :: "config \<Rightarrow> byte \<Rightarrow> paddles list \<Rightarrow> yack \<Rightarrow> yack \<times> byte list" where
  "heartbeats cfg ctrl [] s = (s, [])"
| "heartbeats cfg ctrl (p # ps) s =
     (let (s, c) = yackiambic cfg p ctrl s;
          (s, cs) = heartbeats cfg ctrl ps s
      in (s, c # cs))"

subsection \<open>Recording a message\<close>





subsection \<open>A header and an EEPROM image to run the library on\<close>

text \<open>
  A header for the concrete runs below. Where the comments of \<open>yack.c\<close> name a value it
  is taken from there (a heartbeat of 5 ms, 15 words per minute by default, the magic
  pattern A5, messages of 100 characters, an end-of-message timeout of 5 seconds, that
  is 1000 heartbeats); the other values are free choices. The undefined shift is taken to
  leave its operand as it is, the undefined division to give all ones.
\<close>

definition header :: config where
  "header = \<lparr>YACKBEAT = 5, MINWPM = 5, MAXWPM = 50, DEFWPM = 15, MAXFARN = 255,
             KEYDEBOUNCE = 25, YACKSECS_DEFTIMEOUT = 1000, RBSIZE = 100, DEFCTC = 78,
             FLAGDEFAULT = IAMBICB OR TXKEY OR SIDETONE, MAGPAT = 0xA5,
             negshift = (\<lambda>b n. b), divzero = 0xFFFF\<rparr>"

text \<open>
  The EEPROM as its initialisers in \<open>yack.c\<close> fill it, but for the speed and the flags,
  which are arguments here; and the state in which \<open>yackinit\<close> leaves the keyer.
\<close>

definition image :: "byte \<Rightarrow> byte \<Rightarrow> eeprom" where
  "image w fl =
     \<lparr>magic = MAGPAT header, flagstor = fl, ctcstor = DEFCTC header, wpmstor = w, fwstor = 0,
      eebuffer1 = map of_char ''message 1'' @ replicate 91 0,
      eebuffer2 = map of_char ''message 2'' @ replicate 91 0\<rparr>"

definition started :: "byte \<Rightarrow> byte \<Rightarrow> yack" where
  "started w fl = yackinit header (power_on (image w fl))"

subsection \<open>Notions used to state the properties\<close>

text \<open>
  The characters that have a code: the digits, the letters in both cases, and the
  characters of \<open>spechar\<close>. \<open>normalize\<close> maps a lower-case letter to its capital.
\<close>

definition codebook :: "byte list" where
  "codebook =
     map of_char ''0123456789abcdefghijklmnopqrstuvwxyzABCDEFGHIJKLMNOPQRSTUVWXYZ'' @ spechar"

definition normalize :: "byte \<Rightarrow> byte" where
  "normalize c = (if of_char CHR ''a'' \<le> c \<and> c \<le> of_char CHR ''z'' then c - 0x20 else c)"

text \<open>Calls of \<open>yackspeed\<close> one after the other, each with its direction and its mode.\<close>

fun adjust :: "config \<Rightarrow> (byte \<times> byte) list \<Rightarrow> yack \<Rightarrow> yack" where
  "adjust cfg [] s = s"
| "adjust cfg ((dir, mode) # cs) s = adjust cfg cs (yackspeed cfg dir mode s)"

text \<open>
  The key state that a read of the paddles gives: the latch bits that \<open>keylatch\<close> sets
  for these contacts under these flags.
\<close>

definition paddle_state :: "byte \<Rightarrow> paddles \<Rightarrow> byte" where
  "paddle_state fl pins =
     (if fst pins then (if fl AND PDLSWAP \<noteq> 0 then DAHLATCH else DITLATCH) else 0)
     OR (if snd pins then (if fl AND PDLSWAP \<noteq> 0 then DITLATCH else DAHLATCH) else 0)"

text \<open>
  The keyer idle with no symbol chosen and no latch pending, and both paddles either
  taken into the key state already or about to be at the next read.
\<close>

definition squeezed_idle :: "yack \<Rightarrow> bool" where
  "squeezed_idle s =
     (iambicState (fsm s) = STATE_IDLE \<and> nextSymbol (fsm s) = SYMBOL_NONE
      \<and> volflags s AND SQUEEZED = 0
      \<and> (keystate (fsm s) = SQUEEZED
          \<or> keystate (fsm s) = 0 \<and> unat (debounceTimer (fsm s)) \<le> 1))"


definition released :: "nat \<Rightarrow> paddles list" where
  "released n = replicate n (False, False)"

text \<open>
  The keyer as started at 50 words per minute in mode B, with these statics and this
  output so far.
\<close>

definition keyer :: "iambic \<Rightarrow> event list \<Rightarrow> yack" where
  "keyer f ev = (started 50 IAMBICB)\<lparr>fsm := f, out := ev\<rparr>"

text \<open>
  The schedule of \<open>yackstring\<close>: what the routine puts out after each of its checks of
  the command key and before the next one, when every check finds the button open. The
  check before a character is followed by nothing, unless the character is a space or
  has no code; the check before an element is followed by the element with its gap, and
  after the last element by the rest of the inter-character gap and the Farnsworth
  pause. \<open>sent es s\<close> is the state \<open>s\<close> after the events \<open>es\<close> went out.
\<close>

definition play_events :: "byte \<Rightarrow> event list" where
  "play_events code =
     [KeyDown, Delay (if code AND 0x80 \<noteq> 0 then word_of_int DAHLEN else word_of_int DITLEN),
      KeyUp, Delay (word_of_int IEGLEN)]"

definition tail_events :: "nat \<Rightarrow> event list" where
  "tail_events fw = Delay (word_of_int (ICGLEN - IEGLEN)) # replicate fw (Delay 1)"

fun element_units :: "nat \<Rightarrow> byte \<Rightarrow> event list \<Rightarrow> event list list" where
  "element_units 0 code tail = []"
| "element_units (Suc n) code tail =
     (if push_bit 1 code = 0x80 then [play_events code @ tail]
      else play_events code # element_units n (push_bit 1 code) tail)"

definition char_units :: "byte \<Rightarrow> event list \<Rightarrow> event list list" where
  "char_units c tail =
     (if c = of_char CHR '' '' then [[Delay (word_of_int (IWGLEN - ICGLEN))]]
      else if yackchar_code c = 0x80 then [tail]
      else [] # element_units 8 (yackchar_code c) tail)"

fun string_units :: "byte list \<Rightarrow> event list \<Rightarrow> event list list" where
  "string_units [] tail = []"
| "string_units (c # cs) tail = (if c = 0 then [] else char_units c tail @ string_units cs tail)"

definition sent :: "event list \<Rightarrow> yack \<Rightarrow> yack" where
  "sent es s = s\<lparr>out := out s @ es\<rparr>"

text \<open>
  The wait of \<open>yackctrlkey\<close> for the release of the button: \<open>touched\<close> says that a
  paddle is closed in one of its rounds, and a button observation is \<open>paddle_free\<close> when
  the call returns and no paddle was closed while the button was held. \<open>chirp\<close> is what
  one call of \<open>yackspeed\<close> in speed mode puts out (a dit, a dah, their gaps and the
  Farnsworth pause), and \<open>speed_events\<close> what the wait puts out: a chirp for every
  closed paddle of every round.
\<close>

fun touched :: "paddles list \<Rightarrow> bool" where
  "touched [] = False"
| "touched ((dit, dah) # ps) = (dit \<or> dah \<or> touched ps)"

fun paddle_free :: "button \<Rightarrow> bool" where
  "paddle_free Open = True"
| "paddle_free (Closed ps) = (\<not> touched ps)"
| "paddle_free Stuck = False"

definition chirp :: "nat \<Rightarrow> event list" where
  "chirp fw =
     [KeyDown, Delay (word_of_int DITLEN), KeyUp, Delay (word_of_int IEGLEN),
      KeyDown, Delay (word_of_int DAHLEN), KeyUp, Delay (word_of_int ICGLEN)]
     @ replicate fw (Delay 1)"

fun speed_events :: "nat \<Rightarrow> paddles list \<Rightarrow> event list" where
  "speed_events fw [] = []"
| "speed_events fw ((dit, dah) # ps) =
     (if dit then chirp fw else []) @ (if dah then chirp fw else []) @ speed_events fw ps"

text \<open>
  The checks of the schedule of \<open>yackstring\<close> are numbered from 0. When check number \<open>k\<close>
  is one that \<open>yackchar\<close> makes before an element, \<open>cut_rest\<close> is the part of the string
  after the character of that element; it is empty when the check is one that
  \<open>yackstring\<close> makes before a character.
\<close>

fun cut_rest :: "byte list \<Rightarrow> event list \<Rightarrow> nat \<Rightarrow> byte list" where
  "cut_rest [] tail k = []"
| "cut_rest (c # cs) tail k =
     (if c = 0 \<or> k = 0 then []
      else if k < length (char_units c tail) then cs
      else cut_rest cs tail (k - length (char_units c tail)))"

text \<open>
  The keyer's state with another content of the pattern accumulator, and the keyer as
  started at 50 words per minute in mode B after these heartbeats. Then three conditions
  on the state in which the head of \<open>yackiambic\<close> leaves the keyer: the character gap
  ends with the paddles taken as open (\<open>decodes\<close>), the word gap does (\<open>word_ends\<close>),
  and the switch comes to its case \<open>STATE_DAHDIT_INIT\<close> within this call, at once or
  after its first round (\<open>init_reached\<close>).
\<close>

definition with_acc :: "byte \<Rightarrow> byte \<Rightarrow> yack \<Rightarrow> yack" where
  "with_acc b n s = s\<lparr>fsm := (fsm s)\<lparr>buffer := b, bufctr := n\<rparr>\<rparr>"

definition keyed :: "paddles list \<Rightarrow> yack" where
  "keyed ps = fst (heartbeats header ON ps (started 50 IAMBICB))"

definition decodes :: "config \<Rightarrow> paddles \<Rightarrow> yack \<Rightarrow> bool" where
  "decodes cfg pins s =
     (let f = fsm (sample_keys cfg pins s)
      in iambicState f = STATE_ICG \<and> timer f = 0 \<and> keystate f = 0)"

definition word_ends :: "config \<Rightarrow> paddles \<Rightarrow> yack \<Rightarrow> bool" where
  "word_ends cfg pins s =
     (let f = fsm (sample_keys cfg pins s)
      in iambicState f = STATE_IWG \<and> timer f = 0 \<and> keystate f = 0)"

definition init_reached :: "config \<Rightarrow> paddles \<Rightarrow> byte \<Rightarrow> yack \<Rightarrow> bool" where
  "init_reached cfg pins ctrl s =
     (let t = sample_keys cfg pins s
      in iambicState (fsm t) = STATE_DAHDIT_INIT
         \<or> iambicState (fsm (fst (cycle cfg ctrl (t, 0)))) = STATE_DAHDIT_INIT)"

section \<open>Properties\<close>

subsection \<open>The code table\<close>

lemma codebook_roundtrip:
  "list_all (\<lambda>c. morsechar (yackchar_code c) = normalize c) codebook"
  by (simp add: codebook_def spechar_def morsechar_def yackchar_code_def normalize_def
                morse_def)

text \<open>
  C5. For every character that has an entry in the code table (a digit, a letter, a
  character of \<open>spechar\<close>), decoding its code gives the character back, a lower-case
  letter as its capital.
\<close>

theorem decode_encode:
  "c \<in> set codebook \<Longrightarrow> morsechar (yackchar_code c) = normalize c"
  using codebook_roundtrip by (simp add: list_all_iff)

theorem decode_encode_witness:
  "of_char CHR ''q'' \<in> set codebook
   \<and> morsechar (yackchar_code (of_char CHR ''q'')) = of_char CHR ''Q''"
proof -
  have m: "(of_char CHR ''q'' :: byte) \<in> set codebook"
    by (simp add: codebook_def)
  show ?thesis
    using m decode_encode [OF m] by (simp add: normalize_def)
qed

subsection \<open>Speed and Farnsworth adjustment\<close>

lemma yackfarns_loop_keeps:
  "wpm (yackfarns_loop n s) = wpm s \<and> farnsworth (yackfarns_loop n s) = farnsworth s
   \<and> wpmcnt (yackfarns_loop n s) = wpmcnt s \<and> ee (yackfarns_loop n s) = ee s
   \<and> volflags (yackfarns_loop n s) = volflags s \<and> yackflags (yackfarns_loop n s) = yackflags s
   \<and> fsm (yackfarns_loop n s) = fsm s"
  by (induction n arbitrary: s) (simp_all add: yackdelay_def)

lemma yackplay_keeps:
  "wpm (yackplay i s) = wpm s \<and> farnsworth (yackplay i s) = farnsworth s
   \<and> wpmcnt (yackplay i s) = wpmcnt s \<and> ee (yackplay i s) = ee s
   \<and> volflags (yackplay i s) = volflags s \<and> yackflags (yackplay i s) = yackflags s
   \<and> fsm (yackplay i s) = fsm s"
  by (simp add: yackplay_def key_def yackdelay_def Let_def)

text \<open>The settings after a call of \<open>yackspeed\<close>.\<close>

lemma yackspeed_farnsworth:
  "farnsworth (yackspeed cfg dir mode s) =
     (if mode = FARNSWORTH
      then (if dir = UP \<and> farnsworth s > 0 then farnsworth s - 1
            else if dir = DOWN \<and> unat (farnsworth s) < MAXFARN cfg then farnsworth s + 1
            else farnsworth s)
      else farnsworth s)"
  by (simp add: yackspeed_def Let_def yackfarns_def yackfarns_loop_keeps yackplay_keeps
                yackdelay_def UP_def DOWN_def)

lemma yackspeed_wpm:
  "wpm (yackspeed cfg dir mode s) =
     (if mode = FARNSWORTH then wpm s
      else if dir = UP \<and> unat (wpm s) < MAXWPM cfg then wpm s + 1
      else if dir = DOWN \<and> unat (wpm s) > MINWPM cfg then wpm s - 1
      else wpm s)"
  by (simp add: yackspeed_def Let_def yackfarns_def yackfarns_loop_keeps yackplay_keeps
                yackdelay_def UP_def DOWN_def)


lemma byte_suc: "unat (x :: byte) < 255 \<Longrightarrow> unat (x + 1) = unat x + 1"
  by (simp add: unat_word_ariths)

lemma byte_pred: "0 < unat (x :: byte) \<Longrightarrow> unat (x - 1) = unat x - 1"
  by (metis One_nat_def unat_minus_one unat_eq_zero not_gr_zero)



subsection \<open>Bounds of speed and Farnsworth pause\<close>

lemma yackspeed_range:
  assumes "MINWPM cfg \<le> unat (wpm s)" "unat (wpm s) \<le> MAXWPM cfg"
    "unat (farnsworth s) \<le> MAXFARN cfg" "MAXWPM cfg \<le> 255" "MAXFARN cfg \<le> 255"
  shows "MINWPM cfg \<le> unat (wpm (yackspeed cfg dir mode s))
       \<and> unat (wpm (yackspeed cfg dir mode s)) \<le> MAXWPM cfg
       \<and> unat (farnsworth (yackspeed cfg dir mode s)) \<le> MAXFARN cfg"
proof -
  have w: "MINWPM cfg \<le> unat (wpm (yackspeed cfg dir mode s))
           \<and> unat (wpm (yackspeed cfg dir mode s)) \<le> MAXWPM cfg"
    using assms(1,2,4) by (auto simp: yackspeed_wpm byte_suc byte_pred)
  have f: "unat (farnsworth (yackspeed cfg dir mode s)) \<le> MAXFARN cfg"
  proof (cases "farnsworth s = 0")
    case True
    then show ?thesis using assms(3,5) by (auto simp: yackspeed_farnsworth byte_suc)
  next
    case False
    then have "0 < unat (farnsworth s)" by (simp add: unat_gt_0)
    then show ?thesis
      using assms(3,5) by (auto simp: yackspeed_farnsworth byte_suc byte_pred)
  qed
  show ?thesis using w f by simp
qed

lemma yackspeed_step:
  assumes "MAXWPM cfg \<le> 255" "MAXFARN cfg \<le> 255"
  shows "unat (wpm (yackspeed cfg dir mode s)) \<le> unat (wpm s) + 1
       \<and> unat (wpm s) \<le> unat (wpm (yackspeed cfg dir mode s)) + 1
       \<and> unat (farnsworth (yackspeed cfg dir mode s)) \<le> unat (farnsworth s) + 1
       \<and> unat (farnsworth s) \<le> unat (farnsworth (yackspeed cfg dir mode s)) + 1"
proof -
  have w: "unat (wpm (yackspeed cfg dir mode s)) \<le> unat (wpm s) + 1
       \<and> unat (wpm s) \<le> unat (wpm (yackspeed cfg dir mode s)) + 1"
    using assms(1) by (auto simp: yackspeed_wpm byte_suc byte_pred UP_def DOWN_def)
  have f: "unat (farnsworth (yackspeed cfg dir mode s)) \<le> unat (farnsworth s) + 1
       \<and> unat (farnsworth s) \<le> unat (farnsworth (yackspeed cfg dir mode s)) + 1"
  proof (cases "farnsworth s = 0")
    case True
    then show ?thesis
      using assms(2) by (auto simp: yackspeed_farnsworth byte_suc UP_def DOWN_def)
  next
    case False
    then have "0 < unat (farnsworth s)" by (simp add: unat_gt_0)
    then show ?thesis
      using assms(2) by (auto simp: yackspeed_farnsworth byte_suc byte_pred UP_def DOWN_def)
  qed
  show ?thesis using w f by simp
qed

lemma adjust_range:
  assumes "MAXWPM cfg \<le> 255" "MAXFARN cfg \<le> 255"
  shows "MINWPM cfg \<le> unat (wpm s) \<Longrightarrow> unat (wpm s) \<le> MAXWPM cfg \<Longrightarrow>
         unat (farnsworth s) \<le> MAXFARN cfg \<Longrightarrow>
         MINWPM cfg \<le> unat (wpm (adjust cfg cs s))
       \<and> unat (wpm (adjust cfg cs s)) \<le> MAXWPM cfg
       \<and> unat (farnsworth (adjust cfg cs s)) \<le> MAXFARN cfg"
proof (induction cs arbitrary: s)
  case Nil
  then show ?case by simp
next
  case (Cons c cs)
  obtain dir mode where c: "c = (dir, mode)" by (cases c)
  have "MINWPM cfg \<le> unat (wpm (yackspeed cfg dir mode s))
       \<and> unat (wpm (yackspeed cfg dir mode s)) \<le> MAXWPM cfg
       \<and> unat (farnsworth (yackspeed cfg dir mode s)) \<le> MAXFARN cfg"
    using yackspeed_range [OF Cons.prems assms] .
  then show ?case
    using Cons.IH [of "yackspeed cfg dir mode s"] by (simp add: c)
qed

text \<open>
  C8. Whatever calls of \<open>yackspeed\<close> were made, in either mode and with any direction
  argument, a speed that started within \<open>MINWPM\<close> and \<open>MAXWPM\<close> is still within them and
  a Farnsworth pause that started at most \<open>MAXFARN\<close> still is; and one more call changes
  either value by at most one. (Both bounds fit a byte.)
\<close>

theorem speed_bounds:
  assumes "MINWPM cfg \<le> unat (wpm s)" "unat (wpm s) \<le> MAXWPM cfg"
    "unat (farnsworth s) \<le> MAXFARN cfg" "MAXWPM cfg \<le> 255" "MAXFARN cfg \<le> 255"
  shows "MINWPM cfg \<le> unat (wpm (adjust cfg cs s))
       \<and> unat (wpm (adjust cfg cs s)) \<le> MAXWPM cfg
       \<and> unat (farnsworth (adjust cfg cs s)) \<le> MAXFARN cfg
       \<and> unat (wpm (yackspeed cfg dir mode (adjust cfg cs s))) \<le> unat (wpm (adjust cfg cs s)) + 1
       \<and> unat (wpm (adjust cfg cs s)) \<le> unat (wpm (yackspeed cfg dir mode (adjust cfg cs s))) + 1
       \<and> unat (farnsworth (yackspeed cfg dir mode (adjust cfg cs s)))
           \<le> unat (farnsworth (adjust cfg cs s)) + 1
       \<and> unat (farnsworth (adjust cfg cs s))
           \<le> unat (farnsworth (yackspeed cfg dir mode (adjust cfg cs s))) + 1"
  using adjust_range [OF assms(4,5) assms(1,2,3), of cs]
        yackspeed_step [OF assms(4,5), of dir mode "adjust cfg cs s"]
  by simp

lemma started_settings:
  "wpm (started w fl) = w \<and> farnsworth (started w fl) = 0
   \<and> wpmcnt (started w fl) = beats header (unat w) \<and> yackflags (started w fl) = fl"
  by (simp add: started_def yackinit_def image_def power_on_def yackinhibit_def
                key_def Let_def OFF_def)

theorem speed_bounds_witness:
  "MINWPM header \<le> unat (wpm (started 49 0)) \<and> unat (wpm (started 49 0)) \<le> MAXWPM header
   \<and> unat (farnsworth (started 49 0)) \<le> MAXFARN header
   \<and> MAXWPM header \<le> 255 \<and> MAXFARN header \<le> 255
   \<and> unat (wpm (adjust header [(UP, WPMSPEED), (UP, WPMSPEED), (UP, FARNSWORTH)] (started 49 0)))
       \<le> MAXWPM header
   \<and> wpm (adjust header [(UP, WPMSPEED), (UP, WPMSPEED), (UP, FARNSWORTH)] (started 49 0)) = 50
   \<and> farnsworth (adjust header [(UP, WPMSPEED), (UP, WPMSPEED), (UP, FARNSWORTH)] (started 49 0)) = 0"
proof -
  have h1: "MINWPM header \<le> unat (wpm (started 49 0))"
    and h2: "unat (wpm (started 49 0)) \<le> MAXWPM header"
    and h3: "unat (farnsworth (started 49 0)) \<le> MAXFARN header"
    and h4: "MAXWPM header \<le> 255" and h5: "MAXFARN header \<le> 255"
    by (simp_all add: started_settings header_def)
  have v: "wpm (adjust header [(UP, WPMSPEED), (UP, WPMSPEED), (UP, FARNSWORTH)] (started 49 0)) = 50
    \<and> farnsworth (adjust header [(UP, WPMSPEED), (UP, WPMSPEED), (UP, FARNSWORTH)] (started 49 0)) = 0"
    by (simp add: yackspeed_wpm yackspeed_farnsworth started_settings header_def
                  UP_def DOWN_def WPMSPEED_def FARNSWORTH_def)
  show ?thesis
    using h1 h2 h3 h4 h5 v
      speed_bounds [OF h1 h2 h3 h4 h5,
        of "[(UP, WPMSPEED), (UP, WPMSPEED), (UP, FARNSWORTH)]" UP WPMSPEED]
    by simp
qed

subsection \<open>The length of a dot in heartbeats\<close>





subsection \<open>The keyer's loop and its head\<close>

lemma track_keys_keeps:
  "iambicState (track_keys f) = iambicState f \<and> timer (track_keys f) = timer f
   \<and> repeatCycle (track_keys f) = repeatCycle f \<and> keystate (track_keys f) = keystate f
   \<and> debounceTimer (track_keys f) = debounceTimer f \<and> buffer (track_keys f) = buffer f
   \<and> bufctr (track_keys f) = bufctr f \<and> currentSymbol (track_keys f) = currentSymbol f"
  by (simp add: track_keys_def split: pressedKeys_t.splits)

lemma cycle_init_norepeat:
  "iambicState (fsm (fst sr)) = STATE_DAHDIT_INIT \<Longrightarrow>
   repeatCycle (fsm (fst (cycle cfg ctrl sr))) = 0"
  by (cases sr)
     (simp add: cycle_def dahdit_init_def dahdit_init_keys_def key_def Let_def
           split: symbol_t.splits)

lemma cycle_repeat_init:
  "repeatCycle (fsm (fst (cycle cfg ctrl sr))) \<noteq> 0 \<Longrightarrow>
   iambicState (fsm (fst (cycle cfg ctrl sr))) = STATE_DAHDIT_INIT"
  by (cases sr; cases "iambicState (fsm (fst sr))")
     (auto simp: cycle_def waiting_def dahdit_init_def dahdit_init_keys_def elementing_def
                 key_def Let_def track_keys_keeps
           split: if_splits symbol_t.splits)

lemma fsm_loop_unroll:
  "fsm_loop cfg ctrl sr =
     (if repeatCycle (fsm (fst (cycle cfg ctrl sr))) \<noteq> 0
      then cycle cfg ctrl (cycle cfg ctrl sr) else cycle cfg ctrl sr)"
proof (cases "repeatCycle (fsm (fst (cycle cfg ctrl sr))) \<noteq> 0")
  case True
  then have "repeatCycle (fsm (fst (cycle cfg ctrl (cycle cfg ctrl sr)))) = 0"
    by (intro cycle_init_norepeat cycle_repeat_init)
  then have "fsm_loop cfg ctrl (cycle cfg ctrl sr) = cycle cfg ctrl (cycle cfg ctrl sr)"
    by (subst fsm_loop.simps) (simp add: Let_def)
  with True show ?thesis
    by (subst fsm_loop.simps) (simp add: Let_def)
next
  case False
  then show ?thesis
    by (subst fsm_loop.simps) (simp add: Let_def)
qed

lemmas tick_defs = yackiambic_def sample_keys_def keylatch_def fsm_loop_unroll cycle_def
  waiting_def dahdit_init_def dahdit_init_keys_def elementing_def track_keys_def key_def
  shl_def Let_def DITLATCH_def DAHLATCH_def SQUEEZED_def PDLSWAP_def MODE_def IAMBICB_def
  UP_def DOWN_def ON_def DITLEN_def DAHLEN_def IEGLEN_def ICGLEN_def IWGLEN_def

lemma started_50: "started 50 IAMBICB =
   \<lparr>yackflags = 0x10, volflags = 0, ctcvalue = 78, wpmcnt = 4, wpm = 50, farnsworth = 0,
      ee = image 50 IAMBICB,
      fsm = \<lparr>iambicState = STATE_IDLE, timer = 0, debounceTimer = 0,
             currentSymbol = SYMBOL_NONE, nextSymbol = SYMBOL_NONE,
             pressedKeys = PRESSED_NONE, repeatCycle = 0, keystate = 0,
             buffer = 0, bufctr = 0\<rparr>,
      out = [KeyUp]\<rparr>"
  by (simp add: started_def yackinit_def power_on_def image_def header_def beats_def
      yackinhibit_def key_def Let_def OFF_def UP_def DOWN_def TXKEY_def SIDETONE_def IAMBICB_def)

lemma replicate_numeral: "replicate (numeral k) x = x # replicate (pred_numeral k) x"
  by (simp add: numeral_eq_Suc)

lemma cycle_keeps:
  "keystate (fsm (fst (cycle cfg ctrl sr))) = keystate (fsm (fst sr))
   \<and> debounceTimer (fsm (fst (cycle cfg ctrl sr))) = debounceTimer (fsm (fst sr))
   \<and> volflags (fst (cycle cfg ctrl sr)) = volflags (fst sr)
   \<and> yackflags (fst (cycle cfg ctrl sr)) = yackflags (fst sr)
   \<and> wpmcnt (fst (cycle cfg ctrl sr)) = wpmcnt (fst sr)
   \<and> ee (fst (cycle cfg ctrl sr)) = ee (fst sr)"
  by (cases sr; cases "iambicState (fsm (fst sr))")
     (auto simp: cycle_def waiting_def dahdit_init_def dahdit_init_keys_def elementing_def
                 key_def Let_def track_keys_keeps
           split: if_splits symbol_t.splits)

lemma fsm_loop_keeps:
  "keystate (fsm (fst (fsm_loop cfg ctrl sr))) = keystate (fsm (fst sr))
   \<and> debounceTimer (fsm (fst (fsm_loop cfg ctrl sr))) = debounceTimer (fsm (fst sr))
   \<and> volflags (fst (fsm_loop cfg ctrl sr)) = volflags (fst sr)
   \<and> yackflags (fst (fsm_loop cfg ctrl sr)) = yackflags (fst sr)
   \<and> wpmcnt (fst (fsm_loop cfg ctrl sr)) = wpmcnt (fst sr)
   \<and> ee (fst (fsm_loop cfg ctrl sr)) = ee (fst sr)"
  by (simp add: fsm_loop_unroll cycle_keeps)

lemma sample_held:
  assumes "1 < unat (debounceTimer (fsm s))"
  shows "keystate (fsm (sample_keys cfg pins s)) = keystate (fsm s)
       \<and> debounceTimer (fsm (sample_keys cfg pins s)) = debounceTimer (fsm s) - 1"
proof -
  have "debounceTimer (fsm s) \<noteq> 0" using assms by auto
  moreover have "debounceTimer (fsm s) - 1 \<noteq> 0"
    using assms by (metis unat_1 less_irrefl right_minus_eq)
  ultimately show ?thesis
    by (simp add: sample_keys_def Let_def)
qed

lemma tick_held:
  assumes "1 < unat (debounceTimer (fsm s))"
  shows "keystate (fsm (fst (yackiambic cfg pins ctrl s))) = keystate (fsm s)
       \<and> unat (debounceTimer (fsm (fst (yackiambic cfg pins ctrl s))))
           = unat (debounceTimer (fsm s)) - 1"
proof -
  have "0 < unat (debounceTimer (fsm s))" using assms by simp
  then have "unat (debounceTimer (fsm s) - 1) = unat (debounceTimer (fsm s)) - 1"
    by (metis One_nat_def unat_minus_one unat_eq_zero not_gr_zero)
  then show ?thesis
    using sample_held [OF assms] by (simp add: yackiambic_def fsm_loop_keeps)
qed

lemma heartbeats_Cons:
  "fst (heartbeats cfg ctrl (p # ps) s) = fst (heartbeats cfg ctrl ps (fst (yackiambic cfg p ctrl s)))
   \<and> snd (heartbeats cfg ctrl (p # ps) s) =
       snd (yackiambic cfg p ctrl s) # snd (heartbeats cfg ctrl ps (fst (yackiambic cfg p ctrl s)))"
  by (simp add: split_beta)

lemma heartbeats_append:
  "fst (heartbeats cfg ctrl (ps @ qs) s) = fst (heartbeats cfg ctrl qs (fst (heartbeats cfg ctrl ps s)))
   \<and> snd (heartbeats cfg ctrl (ps @ qs) s) =
       snd (heartbeats cfg ctrl ps s) @ snd (heartbeats cfg ctrl qs (fst (heartbeats cfg ctrl ps s)))"
  by (induction ps arbitrary: s) (simp_all add: split_beta)

lemma or_and_3: "(v OR w) AND (3 :: byte) = (v AND 3) OR (w AND 3)"
  by (simp add: bit.conj_disj_distrib2)

lemma latch_bits:
  assumes "volflags s AND SQUEEZED = 0"
  shows "volflags (keylatch pins s) AND SQUEEZED = paddle_state (yackflags s) pins"
  using assms
  by (cases pins)
     (simp add: keylatch_def paddle_state_def Let_def or_and_3 DITLATCH_def DAHLATCH_def
                SQUEEZED_def)

lemma and_not_3: "(v AND - 4) AND (3 :: byte) = 0"
  by (simp add: and.assoc)

lemma keylatch_keeps: "fsm (keylatch pins t) = fsm t \<and> yackflags (keylatch pins t) = yackflags t"
  by (simp add: keylatch_def Let_def)

lemma timer_le_1: "unat (d :: word16) \<le> 1 \<Longrightarrow> d = 0 \<or> d = 1"
  by (metis le_neq_implies_less less_one unat_1 unat_eq_zero word_unat_eq_iff)

lemma sample_clears:
  assumes "unat (debounceTimer (fsm s)) \<le> 1"
  shows "volflags (sample_keys cfg pins s) AND SQUEEZED = 0"
  using timer_le_1 [OF assms]
  by (auto simp: sample_keys_def Let_def and_not_3 DITLATCH_def DAHLATCH_def SQUEEZED_def)

lemma sample_latches:
  assumes "unat (debounceTimer (fsm s)) \<le> 1" "volflags s AND SQUEEZED = 0"
  shows "keystate (fsm (sample_keys cfg pins s)) = paddle_state (yackflags s) pins"
  using timer_le_1 [OF assms(1)] assms(2)
  by (auto simp: sample_keys_def Let_def keylatch_keeps latch_bits)

lemma sample_keeps:
  "iambicState (fsm (sample_keys cfg pins s)) = iambicState (fsm s)
   \<and> nextSymbol (fsm (sample_keys cfg pins s)) = nextSymbol (fsm s)
   \<and> currentSymbol (fsm (sample_keys cfg pins s)) = currentSymbol (fsm s)
   \<and> pressedKeys (fsm (sample_keys cfg pins s)) = pressedKeys (fsm s)
   \<and> buffer (fsm (sample_keys cfg pins s)) = buffer (fsm s)
   \<and> bufctr (fsm (sample_keys cfg pins s)) = bufctr (fsm s)
   \<and> out (sample_keys cfg pins s) = out s
   \<and> yackflags (sample_keys cfg pins s) = yackflags s
   \<and> wpmcnt (sample_keys cfg pins s) = wpmcnt s
   \<and> ee (sample_keys cfg pins s) = ee s"
  by (simp add: sample_keys_def keylatch_def Let_def)

lemma sample_held_flags:
  assumes "1 < unat (debounceTimer (fsm s))"
  shows "volflags (sample_keys cfg pins s) = volflags s"
proof -
  have "debounceTimer (fsm s) \<noteq> 0" using assms by auto
  moreover have "debounceTimer (fsm s) - 1 \<noteq> 0"
    using assms by (metis unat_1 less_irrefl right_minus_eq)
  ultimately show ?thesis
    by (simp add: sample_keys_def Let_def)
qed

text \<open>The state in which \<open>yackinit\<close> leaves the keyer.\<close>

lemma yackinit_idle:
  "squeezed_idle (yackinit cfg (power_on e)) \<and> out (yackinit cfg (power_on e)) = [KeyUp]"
proof -
  have a: "(x AND 0xC0) AND (3 :: byte) = 0" for x
    by (simp add: and.assoc)
  show ?thesis
    by (simp add: squeezed_idle_def yackinit_def yackreset_def yacksave_def yackinhibit_def
                  power_on_def key_def Let_def a OFF_def UP_def DOWN_def DIRTYFLAG_def
                  TXKEY_def SIDETONE_def SQUEEZED_def)
qed

subsection \<open>Debouncing\<close>

lemma sample_blind:
  assumes "1 < unat (debounceTimer (fsm s))"
  shows "sample_keys cfg pins s = sample_keys cfg pins' s"
proof -
  have "debounceTimer (fsm s) \<noteq> 0" using assms by auto
  moreover have "debounceTimer (fsm s) - 1 \<noteq> 0"
    using assms by (metis unat_1 less_irrefl right_minus_eq)
  ultimately show ?thesis
    by (simp add: sample_keys_def Let_def)
qed

lemma tick_blind:
  assumes "1 < unat (debounceTimer (fsm s))"
  shows "yackiambic cfg pins ctrl s = yackiambic cfg pins' ctrl s"
  using sample_blind [OF assms, of cfg pins pins'] by (simp add: yackiambic_def)

lemma tick_held_flags:
  assumes "1 < unat (debounceTimer (fsm s))"
  shows "volflags (fst (yackiambic cfg pins ctrl s)) = volflags s"
  using sample_held_flags [OF assms, of cfg pins] by (simp add: yackiambic_def fsm_loop_keeps)

lemma heartbeats_blind:
  "length ps < unat (debounceTimer (fsm s)) \<Longrightarrow> length ps' = length ps \<Longrightarrow>
   heartbeats cfg ctrl ps s = heartbeats cfg ctrl ps' s
   \<and> keystate (fsm (fst (heartbeats cfg ctrl ps s))) = keystate (fsm s)
   \<and> volflags (fst (heartbeats cfg ctrl ps s)) = volflags s
   \<and> unat (debounceTimer (fsm (fst (heartbeats cfg ctrl ps s))))
       = unat (debounceTimer (fsm s)) - length ps"
proof (induction ps arbitrary: s ps')
  case Nil
  then show ?case by simp
next
  case (Cons p ps)
  obtain p' qs where q: "ps' = p' # qs" "length qs = length ps"
    using Cons.prems(2) by (cases ps') simp_all
  let ?s1 = "fst (yackiambic cfg p ctrl s)"
  have d: "1 < unat (debounceTimer (fsm s))" using Cons.prems by simp
  have k: "keystate (fsm ?s1) = keystate (fsm s)"
    and u: "unat (debounceTimer (fsm ?s1)) = unat (debounceTimer (fsm s)) - 1"
    using tick_held [OF d, of cfg p ctrl] by simp_all
  have b: "yackiambic cfg p ctrl s = yackiambic cfg p' ctrl s"
    by (rule tick_blind [OF d])
  have v: "volflags ?s1 = volflags s"
    by (rule tick_held_flags [OF d])
  have l: "length ps < unat (debounceTimer (fsm ?s1))" using Cons.prems u by simp
  let ?r = "heartbeats cfg ctrl ps ?s1"
  have ih: "?r = heartbeats cfg ctrl qs ?s1"
    "keystate (fsm (fst ?r)) = keystate (fsm ?s1)"
    "volflags (fst ?r) = volflags ?s1"
    "unat (debounceTimer (fsm (fst ?r))) = unat (debounceTimer (fsm ?s1)) - length ps"
    using Cons.IH [OF l q(2)] by blast+
  have e: "heartbeats cfg ctrl (p # ps) s = heartbeats cfg ctrl (p' # qs) s"
    using ih(1) b by (simp add: split_beta)
  have f: "fst (heartbeats cfg ctrl (p # ps) s) = fst ?r"
    by (simp only: heartbeats_Cons)
  have n: "unat (debounceTimer (fsm (fst ?r))) = unat (debounceTimer (fsm s)) - length (p # ps)"
    using ih(4) u by simp
  show ?case
    unfolding q(1) f using e ih(2,3) k v n by (simp only: simp_thms)
qed

lemma or_3_3: "(v AND 3) OR (3 :: byte) = 3"
  by (rule bit_word_eqI) (auto simp: bit_simps)

lemma latch_bits_gen:
  "volflags (keylatch pins s) AND SQUEEZED = (volflags s AND SQUEEZED) OR paddle_state (yackflags s) pins"
  by (cases pins)
     (simp add: keylatch_def paddle_state_def Let_def or_and_3 DITLATCH_def DAHLATCH_def
                SQUEEZED_def or.assoc or_3_3)

lemma sample_read:
  assumes "unat (debounceTimer (fsm s)) \<le> 1"
  shows "keystate (fsm (sample_keys cfg pins s))
           = (volflags s AND SQUEEZED) OR paddle_state (yackflags s) pins
       \<and> debounceTimer (fsm (sample_keys cfg pins s))
           = (if keystate (fsm s) = (volflags s AND SQUEEZED) OR paddle_state (yackflags s) pins
              then 0 else of_nat (KEYDEBOUNCE cfg div YACKBEAT cfg))"
  using timer_le_1 [OF assms]
  by (auto simp: sample_keys_def Let_def keylatch_keeps latch_bits_gen)

text \<open>
  C2, as the code has it. While the hold-off is running, that is for fewer heartbeats
  than the debounce timer holds, the paddles are not read: heartbeats that differ in
  nothing but their paddles lead to the same states and the same characters, then and
  in whatever follows; the key state and the latch bits stay what they were, and the
  timer counts down. So a change of the paddles that begins and ends within the hold-off
  never latches. When the timer has run out (it is at most 1 before the heartbeat) the
  key state becomes what the paddles show in this very heartbeat, together with any
  latch bit still set in \<open>volflags\<close>; the read clears these bits, and none is set when
  \<open>yackinit\<close> returns. A key state that changed starts the hold-off anew; one that did
  not leaves the timer at zero.
\<close>

theorem debounce_holdoff:
  "(length ps < unat (debounceTimer (fsm s)) \<and> length ps' = length ps \<longrightarrow>
      heartbeats cfg ctrl (ps @ qs) s = heartbeats cfg ctrl (ps' @ qs) s
      \<and> keystate (fsm (fst (heartbeats cfg ctrl ps s))) = keystate (fsm s)
      \<and> volflags (fst (heartbeats cfg ctrl ps s)) = volflags s
      \<and> unat (debounceTimer (fsm (fst (heartbeats cfg ctrl ps s))))
          = unat (debounceTimer (fsm s)) - length ps)
   \<and> (unat (debounceTimer (fsm s)) \<le> 1 \<longrightarrow>
        keystate (fsm (fst (yackiambic cfg pins ctrl s)))
          = (volflags s AND SQUEEZED) OR paddle_state (yackflags s) pins
        \<and> volflags (fst (yackiambic cfg pins ctrl s)) AND SQUEEZED = 0
        \<and> debounceTimer (fsm (fst (yackiambic cfg pins ctrl s)))
            = (if keystate (fsm (fst (yackiambic cfg pins ctrl s))) = keystate (fsm s) then 0
               else of_nat (KEYDEBOUNCE cfg div YACKBEAT cfg)))
   \<and> volflags (yackinit cfg (power_on e)) AND SQUEEZED = 0"
proof -
  have a: "heartbeats cfg ctrl (ps @ qs) s = heartbeats cfg ctrl (ps' @ qs) s"
    if "heartbeats cfg ctrl ps s = heartbeats cfg ctrl ps' s"
    using that heartbeats_append [of cfg ctrl ps qs s] heartbeats_append [of cfg ctrl ps' qs s]
    by (simp only: prod_eq_iff)
  have i: "volflags (yackinit cfg (power_on e)) AND SQUEEZED = 0"
    using yackinit_idle [of cfg e] by (simp add: squeezed_idle_def)
  have h: "heartbeats cfg ctrl (ps @ qs) s = heartbeats cfg ctrl (ps' @ qs) s
      \<and> keystate (fsm (fst (heartbeats cfg ctrl ps s))) = keystate (fsm s)
      \<and> volflags (fst (heartbeats cfg ctrl ps s)) = volflags s
      \<and> unat (debounceTimer (fsm (fst (heartbeats cfg ctrl ps s))))
          = unat (debounceTimer (fsm s)) - length ps"
    if "length ps < unat (debounceTimer (fsm s))" "length ps' = length ps"
    using heartbeats_blind [OF that, of cfg ctrl] a by blast
  have r: "keystate (fsm (fst (yackiambic cfg pins ctrl s)))
          = (volflags s AND SQUEEZED) OR paddle_state (yackflags s) pins
        \<and> volflags (fst (yackiambic cfg pins ctrl s)) AND SQUEEZED = 0
        \<and> debounceTimer (fsm (fst (yackiambic cfg pins ctrl s)))
            = (if keystate (fsm (fst (yackiambic cfg pins ctrl s))) = keystate (fsm s) then 0
               else of_nat (KEYDEBOUNCE cfg div YACKBEAT cfg))"
    if t: "unat (debounceTimer (fsm s)) \<le> 1"
  proof -
    have k: "keystate (fsm (fst (yackiambic cfg pins ctrl s)))
               = (volflags s AND SQUEEZED) OR paddle_state (yackflags s) pins"
      using sample_read [OF t, of cfg pins] by (simp add: yackiambic_def fsm_loop_keeps)
    have v: "volflags (fst (yackiambic cfg pins ctrl s)) AND SQUEEZED = 0"
      using sample_clears [OF t, of cfg pins] by (simp add: yackiambic_def fsm_loop_keeps)
    have d: "debounceTimer (fsm (fst (yackiambic cfg pins ctrl s)))
            = (if keystate (fsm s) = (volflags s AND SQUEEZED) OR paddle_state (yackflags s) pins
               then 0 else of_nat (KEYDEBOUNCE cfg div YACKBEAT cfg))"
      using sample_read [OF t, of cfg pins] by (simp add: yackiambic_def fsm_loop_keeps)
    have c: "(keystate (fsm s) = (volflags s AND SQUEEZED) OR paddle_state (yackflags s) pins)
             = ((volflags s AND SQUEEZED) OR paddle_state (yackflags s) pins = keystate (fsm s))"
      by (rule eq_commute)
    show ?thesis
      unfolding d c using k v by (simp only: simp_thms)
  qed
  show ?thesis
    using h r i by blast
qed


lemma pressed_1:
  "fst (yackiambic header (True, False) ON (started 50 IAMBICB)) =
     \<lparr>yackflags = 0x10, volflags = 0, ctcvalue = 78, wpmcnt = 4, wpm = 50, farnsworth = 0,
      ee = image 50 IAMBICB,
      fsm = \<lparr>iambicState = STATE_DAHDIT, timer = 4, debounceTimer = 5,
             currentSymbol = SYMBOL_DIT, nextSymbol = SYMBOL_NONE,
             pressedKeys = PRESSED_ONE, repeatCycle = 0, keystate = 1,
             buffer = 0, bufctr = 1\<rparr>,
      out = [KeyUp, KeyDown]\<rparr>"
  unfolding started_50 by (simp add: tick_defs header_def)

lemma tapped_in_holdoff:
  "snd (heartbeats header ON (replicate 12 (False, False))
          (fst (yackiambic header (True, False) ON (started 50 IAMBICB))))
     = replicate 11 0 @ [of_char CHR ''E'']"
  unfolding pressed_1
  by (simp add: tick_defs header_def replicate_numeral morsechar_def morse_def)

theorem debounce_holdoff_witness:
  "length [(False, True), (False, True)]
     < unat (debounceTimer (fsm (fst (yackiambic header (True, False) ON (started 50 IAMBICB)))))
   \<and> length [(False, False), (False, False)] = length [(False, True), (False, True)]
   \<and> heartbeats header ON ([(False, True), (False, True)] @ released 10)
         (fst (yackiambic header (True, False) ON (started 50 IAMBICB)))
       = heartbeats header ON ([(False, False), (False, False)] @ released 10)
           (fst (yackiambic header (True, False) ON (started 50 IAMBICB)))
   \<and> snd (heartbeats header ON ([(False, True), (False, True)] @ released 10)
            (fst (yackiambic header (True, False) ON (started 50 IAMBICB))))
       = replicate 11 0 @ [of_char CHR ''E'']
   \<and> keystate (fsm (fst (heartbeats header ON [(False, True), (False, True)]
         (fst (yackiambic header (True, False) ON (started 50 IAMBICB)))))) = DITLATCH
   \<and> volflags (fst (heartbeats header ON [(False, True), (False, True)]
         (fst (yackiambic header (True, False) ON (started 50 IAMBICB))))) = 0
   \<and> unat (debounceTimer (fsm (fst (heartbeats header ON [(False, True), (False, True)]
         (fst (yackiambic header (True, False) ON (started 50 IAMBICB))))))) = 3
   \<and> unat (debounceTimer (fsm (started 50 IAMBICB))) \<le> 1
   \<and> keystate (fsm (fst (yackiambic header (True, False) ON (started 50 IAMBICB)))) = DITLATCH
   \<and> debounceTimer (fsm (fst (yackiambic header (True, False) ON (started 50 IAMBICB)))) = 5"
proof -
  let ?s0 = "started 50 IAMBICB"
  let ?s1 = "fst (yackiambic header (True, False) ON ?s0)"
  let ?tap = "[(False, True), (False :: bool, True)]"
  let ?not = "[(False, False), (False :: bool, False)]"
  have h1: "length ?tap < unat (debounceTimer (fsm ?s1))"
    by (simp add: pressed_1)
  have h2: "length ?not = length ?tap" by simp
  have h3: "unat (debounceTimer (fsm ?s0)) \<le> 1"
    by (simp add: started_50)
  have v: "keystate (fsm ?s1) = 1" "volflags ?s1 = 0" "unat (debounceTimer (fsm ?s1)) = 5"
    "debounceTimer (fsm ?s1) = 5"
    by (simp_all add: pressed_1)
  have n: "?not @ released 10 = replicate 12 (False, False)"
    by (simp add: released_def replicate_numeral)
  have e: "snd (heartbeats header ON (?not @ released 10) ?s1) = replicate 11 0 @ [of_char CHR ''E'']"
    unfolding n by (rule tapped_in_holdoff)
  note a = debounce_holdoff [of ?tap ?s1 ?not header ON "released 10"]
  note b = debounce_holdoff [of "[]" ?s0 "[]" header ON "[]" "(True, False)" "image 50 IAMBICB"]
  have a1: "heartbeats header ON (?tap @ released 10) ?s1
              = heartbeats header ON (?not @ released 10) ?s1"
    using a h1 h2 by blast
  have a2: "keystate (fsm (fst (heartbeats header ON ?tap ?s1))) = DITLATCH"
    "volflags (fst (heartbeats header ON ?tap ?s1)) = 0"
    "unat (debounceTimer (fsm (fst (heartbeats header ON ?tap ?s1)))) = 3"
    using a h1 h2 v by (simp_all add: DITLATCH_def del: heartbeats.simps)
  have p: "(volflags ?s0 AND SQUEEZED) OR paddle_state (yackflags ?s0) (True, False) = DITLATCH"
    "keystate (fsm ?s0) \<noteq> DITLATCH"
    "word_of_nat (KEYDEBOUNCE header div YACKBEAT header) = (5 :: word16)"
    by (simp_all add: started_50 paddle_state_def PDLSWAP_def DITLATCH_def SQUEEZED_def header_def)
  have bb: "keystate (fsm ?s1)
              = (volflags ?s0 AND SQUEEZED) OR paddle_state (yackflags ?s0) (True, False)"
    "debounceTimer (fsm ?s1)
       = (if keystate (fsm ?s1) = keystate (fsm ?s0) then 0
          else word_of_nat (KEYDEBOUNCE header div YACKBEAT header))"
    using b h3 by blast+
  have b1: "keystate (fsm ?s1) = DITLATCH"
    using bb(1) by (simp only: p(1))
  have b2: "debounceTimer (fsm ?s1) = 5"
    using bb(2) p(2) by (simp only: b1 p(3)) simp
  show ?thesis
    using h1 h2 h3 a1 a2 b1 b2 e by (simp only: a1 simp_thms)
qed

text \<open>
  C2 as stated fails: the dit contact closed for a single heartbeat, with a hold-off of
  five heartbeats, latches at once; the key goes down and a whole dit is sent, which the
  keyer decodes as the letter E twelve heartbeats later.
\<close>

theorem debounce_counterexample:
  "KEYDEBOUNCE header div YACKBEAT header = 5
   \<and> keystate (fsm (fst (heartbeats header ON [(True, False), (False, False)]
                     (started 50 IAMBICB)))) = DITLATCH
   \<and> out (fst (heartbeats header ON [(True, False), (False, False)] (started 50 IAMBICB)))
       = [KeyUp, KeyDown]
   \<and> snd (heartbeats header ON ((True, False) # replicate 12 (False, False))
            (started 50 IAMBICB)) = replicate 12 0 @ [of_char CHR ''E'']"
proof -
  have a: "KEYDEBOUNCE header div YACKBEAT header = 5" by (simp add: header_def)
  have b: "keystate (fsm (fst (heartbeats header ON [(True, False), (False, False)]
                     (started 50 IAMBICB)))) = DITLATCH
     \<and> out (fst (heartbeats header ON [(True, False), (False, False)] (started 50 IAMBICB)))
       = [KeyUp, KeyDown]"
    unfolding started_50 by (simp add: tick_defs header_def)
  have c: "snd (heartbeats header ON ((True, False) # replicate 12 (False, False))
            (started 50 IAMBICB)) = replicate 12 0 @ [of_char CHR ''E'']"
    unfolding started_50
    by (simp add: tick_defs header_def replicate_numeral morsechar_def morse_def)
  show ?thesis using a b c by simp
qed

subsection \<open>Both paddles closed in the same heartbeat\<close>

lemma loop_squeezed_idle:
  assumes "iambicState (fsm s) = STATE_IDLE" "keystate (fsm s) = SQUEEZED"
    "nextSymbol (fsm s) = SYMBOL_NONE"
  shows "iambicState (fsm (fst (fsm_loop cfg ctrl (s, 0)))) = STATE_IDLE
       \<and> nextSymbol (fsm (fst (fsm_loop cfg ctrl (s, 0)))) = SYMBOL_NONE
       \<and> out (fst (fsm_loop cfg ctrl (s, 0))) = out s
       \<and> snd (fsm_loop cfg ctrl (s, 0)) = 0
       \<and> bufctr (fsm (fst (fsm_loop cfg ctrl (s, 0)))) = bufctr (fsm s) + 1"
  using assms
  by (simp add: fsm_loop_unroll cycle_def waiting_def dahdit_init_def Let_def
                SQUEEZED_def DITLATCH_def DAHLATCH_def)

lemma squeeze_tick:
  assumes "squeezed_idle s"
  shows "squeezed_idle (fst (yackiambic cfg (True, True) ctrl s))
       \<and> out (fst (yackiambic cfg (True, True) ctrl s)) = out s
       \<and> snd (yackiambic cfg (True, True) ctrl s) = 0"
proof -
  let ?s1 = "sample_keys cfg (True, True) s"
  have ps: "paddle_state fl (True, True) = SQUEEZED" for fl
    by (simp add: paddle_state_def DITLATCH_def DAHLATCH_def SQUEEZED_def)
  have k: "keystate (fsm ?s1) = SQUEEZED \<and> volflags ?s1 AND SQUEEZED = 0"
  proof (cases "unat (debounceTimer (fsm s)) \<le> 1")
    case True
    then show ?thesis
      using assms sample_latches [OF True, of cfg "(True, True)"] sample_clears [OF True, of cfg "(True, True)"]
      by (simp add: squeezed_idle_def ps)
  next
    case False
    then have d: "1 < unat (debounceTimer (fsm s))" by simp
    then show ?thesis
      using assms sample_held [OF d, of cfg "(True, True)"] sample_held_flags [OF d, of cfg "(True, True)"]
      by (auto simp: squeezed_idle_def)
  qed
  have i: "iambicState (fsm ?s1) = STATE_IDLE" "nextSymbol (fsm ?s1) = SYMBOL_NONE"
    using assms by (simp_all add: sample_keeps squeezed_idle_def)
  show ?thesis
    using loop_squeezed_idle [OF i(1) conjunct1 [OF k] i(2), of cfg ctrl] k
    by (simp add: yackiambic_def squeezed_idle_def fsm_loop_keeps sample_keeps)
qed

lemma squeeze_ticks:
  "squeezed_idle s \<Longrightarrow>
   squeezed_idle (fst (heartbeats cfg ctrl (replicate n (True, True)) s))
   \<and> out (fst (heartbeats cfg ctrl (replicate n (True, True)) s)) = out s
   \<and> snd (heartbeats cfg ctrl (replicate n (True, True)) s) = replicate n 0"
proof (induction n arbitrary: s)
  case 0
  then show ?case by simp
next
  case (Suc n)
  let ?s1 = "fst (yackiambic cfg (True, True) ctrl s)"
  have t: "squeezed_idle ?s1" "out ?s1 = out s" "snd (yackiambic cfg (True, True) ctrl s) = 0"
    using squeeze_tick [OF Suc.prems, of cfg ctrl] by simp_all
  show ?case
    using Suc.IH [OF t(1)] t(2,3) by (simp only: replicate_Suc heartbeats_Cons)
qed

text \<open>
  C1 at a squeeze that starts the first element. From the state in which \<open>yackinit\<close>
  leaves the keyer, whatever the EEPROM holds (mode A or B), with both paddles closed in
  the same heartbeat and held for any number of heartbeats: the keyer is idle after every
  heartbeat, the key never goes down, and no character is returned. (The case
  \<open>STATE_IDLE\<close> sets \<open>nextSymbol\<close> only for a key state that is exactly \<open>DITLATCH\<close> or
  \<open>DAHLATCH\<close>, and \<open>STATE_DAHDIT_INIT\<close> then takes its \<open>default\<close> branch.)
\<close>

theorem squeeze_from_idle:
  "iambicState (fsm (fst (heartbeats cfg ctrl (replicate n (True, True))
                            (yackinit cfg (power_on e))))) = STATE_IDLE
   \<and> out (fst (heartbeats cfg ctrl (replicate n (True, True)) (yackinit cfg (power_on e))))
       = [KeyUp]
   \<and> snd (heartbeats cfg ctrl (replicate n (True, True)) (yackinit cfg (power_on e)))
       = replicate n 0"
  using squeeze_ticks [OF conjunct1 [OF yackinit_idle], of cfg ctrl n cfg e] yackinit_idle [of cfg e]
  by (simp add: squeezed_idle_def)

subsection \<open>From key-up to the decoded character\<close>




















lemma started_15: "started 15 IAMBICB =
   \<lparr>yackflags = 0x10, volflags = 0, ctcvalue = 78, wpmcnt = 16, wpm = 15, farnsworth = 0,
      ee = image 15 IAMBICB,
      fsm = \<lparr>iambicState = STATE_IDLE, timer = 0, debounceTimer = 0,
             currentSymbol = SYMBOL_NONE, nextSymbol = SYMBOL_NONE,
             pressedKeys = PRESSED_NONE, repeatCycle = 0, keystate = 0,
             buffer = 0, bufctr = 0\<rparr>,
      out = [KeyUp]\<rparr>"
  by (simp add: started_def yackinit_def power_on_def image_def header_def beats_def
      yackinhibit_def key_def Let_def OFF_def UP_def DOWN_def TXKEY_def SIDETONE_def IAMBICB_def)




subsection \<open>The pattern accumulator\<close>

lemma cycle_init_exact:
  assumes "iambicState (fsm t) = STATE_DAHDIT_INIT"
  shows "bufctr (fsm (fst (cycle cfg ctrl (t, r)))) = bufctr (fsm t) + 1
       \<and> buffer (fsm (fst (cycle cfg ctrl (t, r)))) =
           push_bit 1 (buffer (fsm t))
           OR (if currentSymbol (fsm (fst (cycle cfg ctrl (t, r)))) = SYMBOL_DAH then 1 else 0)
       \<and> snd (cycle cfg ctrl (t, r)) = r
       \<and> iambicState (fsm (fst (cycle cfg ctrl (t, r)))) \<noteq> STATE_DAHDIT_INIT"
  using assms
  by (simp add: cycle_def dahdit_init_def dahdit_init_keys_def key_def Let_def
           split: symbol_t.splits)

lemma cycle_wait_exact:
  assumes "iambicState (fsm t) = STATE_IDLE \<or> iambicState (fsm t) = STATE_ICG
           \<or> iambicState (fsm t) = STATE_IWG"
  shows "bufctr (fsm (fst (cycle cfg ctrl (t, r)))) =
           (if iambicState (fsm t) = STATE_ICG \<and> timer (fsm t) = 0 \<and> keystate (fsm t) = 0
            then 0 else bufctr (fsm t))
       \<and> buffer (fsm (fst (cycle cfg ctrl (t, r)))) =
           (if iambicState (fsm t) = STATE_ICG \<and> timer (fsm t) = 0 \<and> keystate (fsm t) = 0
            then 0 else buffer (fsm t))
       \<and> snd (cycle cfg ctrl (t, r)) =
           (if iambicState (fsm t) = STATE_ICG \<and> timer (fsm t) = 0 \<and> keystate (fsm t) = 0
            then morsechar (shl cfg (push_bit 1 (buffer (fsm t)) OR 1) (7 - uint (bufctr (fsm t))))
            else if iambicState (fsm t) = STATE_IWG \<and> timer (fsm t) = 0 \<and> keystate (fsm t) = 0
                    \<and> ctrl = ON
            then of_char CHR '' '' else r)
       \<and> (iambicState (fsm (fst (cycle cfg ctrl (t, r)))) = STATE_DAHDIT_INIT)
           = (keystate (fsm t) \<noteq> 0)
       \<and> (repeatCycle (fsm (fst (cycle cfg ctrl (t, r)))) \<noteq> 0) = (keystate (fsm t) \<noteq> 0)"
  using assms
  by (cases "iambicState (fsm t)"; cases "keystate (fsm t) = 0"; cases "timer (fsm t) = 0")
     (simp_all add: cycle_def waiting_def Let_def)

lemma cycle_elem_exact:
  assumes "iambicState (fsm t) = STATE_DAHDIT \<or> iambicState (fsm t) = STATE_IEG"
  shows "bufctr (fsm (fst (cycle cfg ctrl (t, r)))) = bufctr (fsm t)
       \<and> buffer (fsm (fst (cycle cfg ctrl (t, r)))) = buffer (fsm t)
       \<and> snd (cycle cfg ctrl (t, r)) = r
       \<and> (repeatCycle (fsm (fst (cycle cfg ctrl (t, r)))) \<noteq> 0)
           = (iambicState (fsm (fst (cycle cfg ctrl (t, r)))) = STATE_DAHDIT_INIT)"
  using assms
  by (cases "iambicState (fsm t)"; cases "timer (fsm t) = 0")
     (simp_all add: cycle_def elementing_def key_def Let_def track_keys_keeps)


lemma with_acc_fields:
  "iambicState (fsm (with_acc b n s)) = iambicState (fsm s)
   \<and> timer (fsm (with_acc b n s)) = timer (fsm s)
   \<and> keystate (fsm (with_acc b n s)) = keystate (fsm s)
   \<and> repeatCycle (fsm (with_acc b n s)) = repeatCycle (fsm s)
   \<and> buffer (fsm (with_acc b n s)) = b \<and> bufctr (fsm (with_acc b n s)) = n"
  by (simp add: with_acc_def)

lemma with_acc_twice: "with_acc b n (with_acc b' n' s) = with_acc b n s"
  by (simp add: with_acc_def)

lemma with_acc_same: "with_acc (buffer (fsm s)) (bufctr (fsm s)) s = s"
  by (simp add: with_acc_def)

lemma sample_with_acc:
  "sample_keys cfg pins (with_acc b n s) = with_acc b n (sample_keys cfg pins s)"
proof -
  have k: "keylatch pins (t\<lparr>fsm := f\<rparr>) = (keylatch pins t)\<lparr>fsm := f\<rparr>" for t f
    by (simp add: keylatch_def Let_def)
  show ?thesis
    by (cases "timer (fsm s) = 0"; cases "debounceTimer (fsm s) = 0";
        cases "debounceTimer (fsm s) - 1 = 0")
       (simp_all add: sample_keys_def with_acc_def Let_def k keylatch_keeps)
qed

lemma track_with_acc:
  "track_keys (f\<lparr>buffer := b, bufctr := n\<rparr>) = (track_keys f)\<lparr>buffer := b, bufctr := n\<rparr>"
  by (simp add: track_keys_def split: pressedKeys_t.splits)

lemma elementing_with_acc: "elementing (with_acc b n t) = with_acc b n (elementing t)"
  by (simp add: elementing_def with_acc_def track_with_acc key_def Let_def track_keys_keeps)

lemma init_keys_with_acc: "dahdit_init_keys (with_acc b n t) = with_acc b n (dahdit_init_keys t)"
  by (simp add: dahdit_init_keys_def with_acc_def key_def Let_def)


lemma init_with_acc:
  "with_acc 0 0 (dahdit_init (with_acc b n t)) = with_acc 0 0 (dahdit_init t)"
  by (cases "nextSymbol (fsm t)")
     (simp_all add: dahdit_init_def dahdit_init_keys_def key_def Let_def with_acc_def)

lemma waiting_with_acc:
  "with_acc 0 0 (fst (waiting cfg ctrl (with_acc b n t, r)))
     = with_acc 0 0 (fst (waiting cfg ctrl (t, r')))"
  by (cases "keystate (fsm t) = 0"; cases "timer (fsm t) = 0"; cases "iambicState (fsm t)")
     (simp_all add: waiting_def Let_def with_acc_def)

lemma cycle_with_acc:
  "with_acc 0 0 (fst (cycle cfg ctrl (with_acc b n t, r)))
     = with_acc 0 0 (fst (cycle cfg ctrl (t, r')))"
proof -
  have e: "with_acc b n t\<lparr>fsm := (fsm (with_acc b n t))\<lparr>repeatCycle := 0\<rparr>\<rparr>
             = with_acc b n (t\<lparr>fsm := (fsm t)\<lparr>repeatCycle := 0\<rparr>\<rparr>)"
    by (simp add: with_acc_def)
  show ?thesis
    by (cases "iambicState (fsm t)")
       (simp_all add: cycle_def Let_def with_acc_fields e waiting_with_acc [of cfg ctrl b n _ r r']
                      init_with_acc elementing_with_acc with_acc_twice)
qed


lemma with_acc_eq:
  assumes "with_acc 0 0 x = with_acc 0 0 y"
  shows "x = with_acc (buffer (fsm x)) (bufctr (fsm x)) y"
proof -
  have "x = with_acc (buffer (fsm x)) (bufctr (fsm x)) (with_acc 0 0 x)"
    by (simp only: with_acc_twice with_acc_same)
  then show ?thesis
    by (simp only: assms with_acc_twice)
qed

lemma with_acc_other:
  assumes "with_acc 0 0 x = with_acc 0 0 y"
  shows "repeatCycle (fsm x) = repeatCycle (fsm y) \<and> iambicState (fsm x) = iambicState (fsm y)"
  by (subst (1 2) with_acc_eq [OF assms]) (simp only: with_acc_fields simp_thms)

lemma loop_with_acc:
  "with_acc 0 0 (fst (fsm_loop cfg ctrl (with_acc b n t, r)))
     = with_acc 0 0 (fst (fsm_loop cfg ctrl (t, r')))"
proof -
  let ?x = "cycle cfg ctrl (with_acc b n t, r)"
  let ?y = "cycle cfg ctrl (t, r')"
  have c: "with_acc 0 0 (fst ?x) = with_acc 0 0 (fst ?y)"
    by (rule cycle_with_acc)
  have rp: "repeatCycle (fsm (fst ?x)) = repeatCycle (fsm (fst ?y))"
    using with_acc_other [OF c] by simp
  have "cycle cfg ctrl ?x
          = cycle cfg ctrl (with_acc (buffer (fsm (fst ?x))) (bufctr (fsm (fst ?x))) (fst ?y), snd ?x)"
    using with_acc_eq [OF c] by (metis prod.collapse)
  then have d: "with_acc 0 0 (fst (cycle cfg ctrl ?x)) = with_acc 0 0 (fst (cycle cfg ctrl ?y))"
    using cycle_with_acc [of cfg ctrl "buffer (fsm (fst ?x))" "bufctr (fsm (fst ?x))" "fst ?y"
                             "snd ?x" "snd ?y"]
    by (simp only: prod.collapse)
  show ?thesis
    using c d by (simp add: fsm_loop_unroll rp)
qed

lemma tick_with_acc:
  "with_acc 0 0 (fst (yackiambic cfg pins ctrl (with_acc b n s)))
     = with_acc 0 0 (fst (yackiambic cfg pins ctrl s))"
  by (simp only: yackiambic_def sample_with_acc loop_with_acc)

lemma preds_with_acc:
  "decodes cfg pins (with_acc b n s) = decodes cfg pins s
   \<and> word_ends cfg pins (with_acc b n s) = word_ends cfg pins s
   \<and> init_reached cfg pins ctrl (with_acc b n s) = init_reached cfg pins ctrl s"
  using with_acc_other [OF cycle_with_acc [of cfg ctrl b n "sample_keys cfg pins s" 0 0]]
  by (simp add: decodes_def word_ends_def init_reached_def sample_with_acc with_acc_fields Let_def)

lemma tick_exact:
  "bufctr (fsm (fst (yackiambic cfg pins ctrl s))) =
     (if decodes cfg pins s then 0
      else if init_reached cfg pins ctrl s then bufctr (fsm s) + 1 else bufctr (fsm s))
   \<and> buffer (fsm (fst (yackiambic cfg pins ctrl s))) =
     (if decodes cfg pins s then 0
      else if init_reached cfg pins ctrl s
      then push_bit 1 (buffer (fsm s))
           OR (if currentSymbol (fsm (fst (yackiambic cfg pins ctrl s))) = SYMBOL_DAH
               then 1 else 0)
      else buffer (fsm s))
   \<and> snd (yackiambic cfg pins ctrl s) =
     (if decodes cfg pins s
      then morsechar (shl cfg (push_bit 1 (buffer (fsm s)) OR 1) (7 - uint (bufctr (fsm s))))
      else if word_ends cfg pins s \<and> ctrl = ON then of_char CHR '' '' else 0)
   \<and> \<not> (decodes cfg pins s \<and> init_reached cfg pins ctrl s)"
proof -
  let ?t = "sample_keys cfg pins s"
  let ?a = "cycle cfg ctrl (?t, 0)"
  have k: "buffer (fsm ?t) = buffer (fsm s)" "bufctr (fsm ?t) = bufctr (fsm s)"
    by (simp_all add: sample_keeps)
  consider (init) "iambicState (fsm ?t) = STATE_DAHDIT_INIT"
    | (wait) "iambicState (fsm ?t) = STATE_IDLE \<or> iambicState (fsm ?t) = STATE_ICG
              \<or> iambicState (fsm ?t) = STATE_IWG"
    | (elem) "iambicState (fsm ?t) = STATE_DAHDIT \<or> iambicState (fsm ?t) = STATE_IEG"
    by (cases "iambicState (fsm ?t)") simp_all
  then show ?thesis
  proof cases
    case init
    have n: "repeatCycle (fsm (fst ?a)) = 0"
      using init by (simp add: cycle_init_norepeat)
    have e: "yackiambic cfg pins ctrl s = ?a"
      using n by (simp add: yackiambic_def fsm_loop_unroll)
    have p: "\<not> decodes cfg pins s" "\<not> word_ends cfg pins s" "init_reached cfg pins ctrl s"
      using init by (simp_all add: decodes_def word_ends_def init_reached_def Let_def)
    show ?thesis
      unfolding e using cycle_init_exact [OF init, of cfg ctrl 0] by (simp add: k p)
  next
    case wait
    note w = cycle_wait_exact [OF wait, of cfg ctrl 0]
    have ni: "iambicState (fsm ?t) \<noteq> STATE_DAHDIT_INIT" using wait by auto
    show ?thesis
    proof (cases "keystate (fsm ?t) = 0")
      case True
      have e: "yackiambic cfg pins ctrl s = ?a"
        using w True by (simp add: yackiambic_def fsm_loop_unroll)
      have p: "\<not> init_reached cfg pins c s" for c
        using cycle_wait_exact [OF wait, of cfg c 0] True ni by (simp add: init_reached_def Let_def)
      have q: "decodes cfg pins s = (iambicState (fsm ?t) = STATE_ICG \<and> timer (fsm ?t) = 0)"
        "word_ends cfg pins s = (iambicState (fsm ?t) = STATE_IWG \<and> timer (fsm ?t) = 0)"
        using True by (simp_all add: decodes_def word_ends_def Let_def)
      show ?thesis
        unfolding e using w True by (simp add: q k p)
    next
      case False
      have r: "repeatCycle (fsm (fst ?a)) \<noteq> 0" and i: "iambicState (fsm (fst ?a)) = STATE_DAHDIT_INIT"
        using w False by simp_all
      have same: "buffer (fsm (fst ?a)) = buffer (fsm s)" "bufctr (fsm (fst ?a)) = bufctr (fsm s)"
        "snd ?a = 0"
        using w False by (simp_all add: k)
      have e: "yackiambic cfg pins ctrl s = cycle cfg ctrl (fst ?a, snd ?a)"
        using r by (simp add: yackiambic_def fsm_loop_unroll)
      have p: "\<not> decodes cfg pins s" "\<not> word_ends cfg pins s" "init_reached cfg pins ctrl s"
        using False i by (simp_all add: decodes_def word_ends_def init_reached_def Let_def)
      show ?thesis
        unfolding e using cycle_init_exact [OF i, of cfg ctrl "snd ?a"] by (simp add: same p)
    qed
  next
    case elem
    note w = cycle_elem_exact [OF elem, of cfg ctrl 0]
    have ni: "iambicState (fsm ?t) \<noteq> STATE_DAHDIT_INIT" using elem by auto
    have p: "\<not> decodes cfg pins s" "\<not> word_ends cfg pins s"
      using elem by (auto simp: decodes_def word_ends_def Let_def)
    show ?thesis
    proof (cases "iambicState (fsm (fst ?a)) = STATE_DAHDIT_INIT")
      case True
      have r: "repeatCycle (fsm (fst ?a)) \<noteq> 0" using w True by simp
      have same: "buffer (fsm (fst ?a)) = buffer (fsm s)" "bufctr (fsm (fst ?a)) = bufctr (fsm s)"
        "snd ?a = 0"
        using w by (simp_all add: k)
      have e: "yackiambic cfg pins ctrl s = cycle cfg ctrl (fst ?a, snd ?a)"
        using r by (simp add: yackiambic_def fsm_loop_unroll)
      have q: "init_reached cfg pins ctrl s"
        using True by (simp add: init_reached_def Let_def)
      show ?thesis
        unfolding e using cycle_init_exact [OF True, of cfg ctrl "snd ?a"] by (simp add: same p q)
    next
      case False
      have r: "repeatCycle (fsm (fst ?a)) = 0" using w False by simp
      have e: "yackiambic cfg pins ctrl s = ?a"
        using r by (simp add: yackiambic_def fsm_loop_unroll)
      have q: "\<not> init_reached cfg pins ctrl s"
        using False ni by (simp add: init_reached_def Let_def)
      show ?thesis
        unfolding e using w by (simp add: k p q)
    qed
  qed
qed


lemma loop_begins:
  assumes "iambicState (fsm t) = STATE_IDLE \<or> iambicState (fsm t) = STATE_ICG
           \<or> iambicState (fsm t) = STATE_IWG"
    "keystate (fsm t) = DITLATCH \<or> keystate (fsm t) = DAHLATCH"
  shows "out (fst (fsm_loop cfg ctrl (t, 0))) = out t @ [KeyDown]
       \<and> iambicState (fsm (fst (fsm_loop cfg ctrl (t, 0)))) = STATE_DAHDIT
       \<and> currentSymbol (fsm (fst (fsm_loop cfg ctrl (t, 0))))
           = (if keystate (fsm t) = DAHLATCH then SYMBOL_DAH else SYMBOL_DIT)"
proof -
  have k: "keystate (fsm t) = 1 \<or> keystate (fsm t) = 2"
    using assms(2) by (simp add: DITLATCH_def DAHLATCH_def)
  show ?thesis
    using assms(1) k
    by (cases "iambicState (fsm t)"; cases "timer (fsm t) = 0"; cases "keystate (fsm t) = 1")
       (simp_all add: fsm_loop_unroll cycle_def waiting_def dahdit_init_def dahdit_init_keys_def
                      key_def Let_def DITLATCH_def DAHLATCH_def SQUEEZED_def DOWN_def UP_def)
qed

lemma shift_wraps:
  fixes b :: byte
  shows "unat (push_bit 1 b OR (if d then 1 else 0)) = (2 * unat b) mod 256 + (if d then 1 else 0)"
proof -
  have a: "unat (push_bit 1 b) = (2 * unat b) mod 256"
    by (simp add: push_bit_eq_mult unat_word_ariths mult.commute)
  have "(2 * unat b) mod 256 = 2 * (unat b mod 128)"
    by (simp add: mult_mod_right)
  moreover have "unat b mod 128 < 128" by simp
  ultimately have "(2 * unat b) mod 256 < 255" by linarith
  then have l: "unat (push_bit 1 b) < 255"
    by (simp only: a)
  have o: "push_bit 1 b OR 1 = push_bit 1 b + 1"
    by (simp add: push_bit_eq_mult or_one_eq)
  have "unat (push_bit 1 b + 1) = unat (push_bit 1 b) + 1"
    by (rule byte_suc [OF l])
  then have c: "unat (push_bit 1 b OR 1) = (2 * unat b) mod 256 + 1"
    by (simp only: o a)
  show ?thesis
  proof (cases d)
    case True
    then show ?thesis by (simp only: c if_True)
  next
    case False
    have "push_bit 1 b OR 0 = push_bit 1 b" by simp
    then show ?thesis using False by (simp only: a if_False add_0_right)
  qed
qed


lemma shift_exact:
  fixes b :: byte
  assumes "n < 8" "unat b < 2 ^ n"
  shows "unat (push_bit 1 b) = 2 * unat b \<and> unat (push_bit 1 b OR 1) = 2 * unat b + 1"
proof -
  have "(2 :: nat) ^ n \<le> 2 ^ 7" using assms(1) by (intro power_increasing) simp_all
  then have l: "unat b < 128" using assms(2) by simp
  have a: "unat (push_bit 1 b) = 2 * unat b"
    using l by (simp add: unat_word_ariths push_bit_eq_mult)
  have "push_bit 1 b OR 1 = push_bit 1 b + 1"
    by (simp add: push_bit_eq_mult or_one_eq) 
  then have "unat (push_bit 1 b OR 1) = 2 * unat b + 1"
    using l a by (simp add: unat_word_ariths push_bit_eq_mult)
  then show ?thesis using a by simp
qed

lemma keyer_eq:
  "keyer f ev =
     \<lparr>yackflags = 0x10, volflags = 0, ctcvalue = 78, wpmcnt = 4, wpm = 50, farnsworth = 0,
      ee = image 50 IAMBICB, fsm = f, out = ev\<rparr>"
  by (simp add: keyer_def started_50)

text \<open>A dah, the dah paddle closed for one heartbeat and the dit paddle from then on.\<close>

lemma dah_then_dit:
  "heartbeats header ON ((False, True) # replicate 15 (True, False)) (started 50 IAMBICB) =
     (keyer \<lparr>iambicState = STATE_IEG, timer = 1, debounceTimer = 0,
             currentSymbol = SYMBOL_DAH, nextSymbol = SYMBOL_NONE,
             pressedKeys = PRESSED_ONE, repeatCycle = 0, keystate = 1,
             buffer = 1, bufctr = 1\<rparr> [KeyUp, KeyDown, KeyUp],
      replicate 16 0)"
  unfolding started_50 keyer_eq
  by (simp add: tick_defs header_def replicate_numeral)

text \<open>Two dits, the dit paddle held for their sixteen heartbeats.\<close>

lemma two_dits:
  "heartbeats header ON (replicate 16 (True, False))
     (keyer \<lparr>iambicState = STATE_IEG, timer = 1, debounceTimer = 0,
             currentSymbol = c, nextSymbol = SYMBOL_NONE,
             pressedKeys = PRESSED_ONE, repeatCycle = 0, keystate = 1,
             buffer = b, bufctr = n\<rparr> ev) =
     (keyer \<lparr>iambicState = STATE_IEG, timer = 1, debounceTimer = 0,
             currentSymbol = SYMBOL_DIT, nextSymbol = SYMBOL_NONE,
             pressedKeys = PRESSED_ONE, repeatCycle = 0, keystate = 1,
             buffer = push_bit 2 b, bufctr = n + 2\<rparr>
            (ev @ [KeyDown, KeyUp, KeyDown, KeyUp]),
      replicate 16 0)"
  unfolding keyer_eq
  by (simp add: tick_defs header_def replicate_numeral push_bit_eq_mult)

text \<open>Two dits, the dit paddle opened during the second.\<close>

lemma two_dits_released:
  "heartbeats header ON (replicate 9 (True, False) @ released 7)
     (keyer \<lparr>iambicState = STATE_IEG, timer = 1, debounceTimer = 0,
             currentSymbol = c, nextSymbol = SYMBOL_NONE,
             pressedKeys = PRESSED_ONE, repeatCycle = 0, keystate = 1,
             buffer = b, bufctr = n\<rparr> ev) =
     (keyer \<lparr>iambicState = STATE_IEG, timer = 1, debounceTimer = 0,
             currentSymbol = SYMBOL_DIT, nextSymbol = SYMBOL_NONE,
             pressedKeys = PRESSED_NONE, repeatCycle = 0, keystate = 0,
             buffer = push_bit 2 b, bufctr = n + 2\<rparr>
            (ev @ [KeyDown, KeyUp, KeyDown, KeyUp]),
      replicate 16 0)"
  unfolding keyer_eq released_def
  by (simp add: tick_defs header_def replicate_numeral push_bit_eq_mult)

lemma heartbeats_chunk:
  assumes "heartbeats cfg ctrl ps s = (s1, cs)"
  shows "heartbeats cfg ctrl (ps @ qs) s = (fst (heartbeats cfg ctrl qs s1), cs @ snd (heartbeats cfg ctrl qs s1))"
  using heartbeats_append [of cfg ctrl ps qs s] assms
  by (metis fst_conv snd_conv surjective_pairing)

text \<open>
  C4, as the code has it. The pattern accumulator is the byte \<open>buffer\<close> with the element
  count \<open>bufctr\<close>, and no heartbeat checks its width. What a heartbeat does to them is
  decided by the rest of the state alone. Both are cleared in the heartbeat of the
  decode. In a heartbeat in which the switch comes to \<open>STATE_DAHDIT_INIT\<close> the byte is
  shifted left by one, the bit of the new element is appended and the count goes up by
  one, modulo 256, whatever the count was. In every other heartbeat both stay as they
  are. The value returned is the decoded character in the heartbeat of the decode, a
  space at the end of the word gap for a caller who asked for it, and 0 in every other
  heartbeat: so 0 also when a ninth or later element is taken in. Another content of the
  accumulator changes none of the three conditions and nothing else of the next state.
  An element begins, and the key goes down, whenever the keyer waits and the key state
  is a single paddle. The shift drops the top bit of the byte; while fewer than eight
  elements are held nothing is lost, the pattern so far being the new byte without its
  last bit.
\<close>

theorem accumulator_step:
  "bufctr (fsm (fst (yackiambic cfg pins ctrl s))) =
     (if decodes cfg pins s then 0
      else if init_reached cfg pins ctrl s then bufctr (fsm s) + 1 else bufctr (fsm s))
   \<and> buffer (fsm (fst (yackiambic cfg pins ctrl s))) =
     (if decodes cfg pins s then 0
      else if init_reached cfg pins ctrl s
      then push_bit 1 (buffer (fsm s))
           OR (if currentSymbol (fsm (fst (yackiambic cfg pins ctrl s))) = SYMBOL_DAH
               then 1 else 0)
      else buffer (fsm s))
   \<and> snd (yackiambic cfg pins ctrl s) =
     (if decodes cfg pins s
      then morsechar (shl cfg (push_bit 1 (buffer (fsm s)) OR 1) (7 - uint (bufctr (fsm s))))
      else if word_ends cfg pins s \<and> ctrl = ON then of_char CHR '' '' else 0)
   \<and> \<not> (decodes cfg pins s \<and> init_reached cfg pins ctrl s)
   \<and> decodes cfg pins (with_acc b n s) = decodes cfg pins s
   \<and> word_ends cfg pins (with_acc b n s) = word_ends cfg pins s
   \<and> init_reached cfg pins ctrl (with_acc b n s) = init_reached cfg pins ctrl s
   \<and> with_acc 0 0 (fst (yackiambic cfg pins ctrl (with_acc b n s)))
       = with_acc 0 0 (fst (yackiambic cfg pins ctrl s))
   \<and> ((iambicState (fsm (sample_keys cfg pins s)) = STATE_IDLE
        \<or> iambicState (fsm (sample_keys cfg pins s)) = STATE_ICG
        \<or> iambicState (fsm (sample_keys cfg pins s)) = STATE_IWG)
       \<and> (keystate (fsm (sample_keys cfg pins s)) = DITLATCH
            \<or> keystate (fsm (sample_keys cfg pins s)) = DAHLATCH) \<longrightarrow>
         init_reached cfg pins ctrl s
         \<and> out (fst (yackiambic cfg pins ctrl s)) = out s @ [KeyDown]
         \<and> currentSymbol (fsm (fst (yackiambic cfg pins ctrl s)))
             = (if keystate (fsm (sample_keys cfg pins s)) = DAHLATCH
                then SYMBOL_DAH else SYMBOL_DIT))
   \<and> (init_reached cfg pins ctrl s \<longrightarrow>
         unat (buffer (fsm (fst (yackiambic cfg pins ctrl s))))
           = (2 * unat (buffer (fsm s))) mod 256
             + (if currentSymbol (fsm (fst (yackiambic cfg pins ctrl s))) = SYMBOL_DAH
                then 1 else 0))
   \<and> (init_reached cfg pins ctrl s \<and> unat (bufctr (fsm s)) < 8
        \<and> unat (buffer (fsm s)) < 2 ^ unat (bufctr (fsm s)) \<longrightarrow>
         unat (buffer (fsm (fst (yackiambic cfg pins ctrl s)))) div 2 = unat (buffer (fsm s))
         \<and> unat (buffer (fsm (fst (yackiambic cfg pins ctrl s))))
             < 2 ^ (unat (bufctr (fsm s)) + 1))"
proof -
  let ?t = "sample_keys cfg pins s"
  let ?r = "yackiambic cfg pins ctrl s"
  let ?d = "currentSymbol (fsm (fst ?r)) = SYMBOL_DAH"
  note x = tick_exact [of cfg pins ctrl s]
  have p: "init_reached cfg pins ctrl s
         \<and> out (fst ?r) = out s @ [KeyDown]
         \<and> currentSymbol (fsm (fst ?r))
             = (if keystate (fsm ?t) = DAHLATCH then SYMBOL_DAH else SYMBOL_DIT)"
    if w: "iambicState (fsm ?t) = STATE_IDLE \<or> iambicState (fsm ?t) = STATE_ICG
           \<or> iambicState (fsm ?t) = STATE_IWG"
      and k: "keystate (fsm ?t) = DITLATCH \<or> keystate (fsm ?t) = DAHLATCH"
  proof -
    have "keystate (fsm ?t) \<noteq> 0"
      using k by (auto simp: DITLATCH_def DAHLATCH_def)
    then have "init_reached cfg pins ctrl s"
      using cycle_wait_exact [OF w, of cfg ctrl 0] by (simp add: init_reached_def Let_def)
    then show ?thesis
      using loop_begins [OF w k, of cfg ctrl] by (simp add: yackiambic_def sample_keeps)
  qed
  have b1: "buffer (fsm (fst ?r)) = push_bit 1 (buffer (fsm s)) OR (if ?d then 1 else 0)"
    if "init_reached cfg pins ctrl s"
    using x that by auto
  have u: "unat (buffer (fsm (fst ?r)))
             = (2 * unat (buffer (fsm s))) mod 256 + (if ?d then 1 else 0)"
    if i: "init_reached cfg pins ctrl s"
    unfolding b1 [OF i] by (rule shift_wraps)
  have l: "unat (buffer (fsm (fst ?r))) div 2 = unat (buffer (fsm s))
         \<and> unat (buffer (fsm (fst ?r))) < 2 ^ (unat (bufctr (fsm s)) + 1)"
    if i: "init_reached cfg pins ctrl s" and c: "unat (bufctr (fsm s)) < 8"
      and v: "unat (buffer (fsm s)) < 2 ^ unat (bufctr (fsm s))"
  proof -
    note e = shift_exact [OF c v]
    show ?thesis
    proof (cases ?d)
      case True
      then have "unat (buffer (fsm (fst ?r))) = 2 * unat (buffer (fsm s)) + 1"
        using b1 [OF i] e by simp
      then show ?thesis using v by simp
    next
      case False
      then have "unat (buffer (fsm (fst ?r))) = 2 * unat (buffer (fsm s))"
        using b1 [OF i] e by simp
      then show ?thesis using v by simp
    qed
  qed
  show ?thesis
    using x preds_with_acc [of cfg pins b n s ctrl] tick_with_acc [of cfg pins ctrl b n s] p u l
    by blast
qed


lemma one_dit:
  "heartbeats header ON (replicate 8 (True, False))
     (keyer \<lparr>iambicState = STATE_IEG, timer = 1, debounceTimer = 0,
             currentSymbol = c, nextSymbol = SYMBOL_NONE,
             pressedKeys = PRESSED_ONE, repeatCycle = 0, keystate = 1,
             buffer = b, bufctr = n\<rparr> ev) =
     (keyer \<lparr>iambicState = STATE_IEG, timer = 1, debounceTimer = 0,
             currentSymbol = SYMBOL_DIT, nextSymbol = SYMBOL_NONE,
             pressedKeys = PRESSED_ONE, repeatCycle = 0, keystate = 1,
             buffer = push_bit 1 b, bufctr = n + 1\<rparr>
            (ev @ [KeyDown, KeyUp]),
      replicate 8 0)"
  unfolding keyer_eq
  by (simp add: tick_defs header_def replicate_numeral push_bit_eq_mult)

lemma seven_keyed:
  "keyed ((False, True) # replicate 15 (True, False) @ replicate 48 (True, False)) =
     keyer \<lparr>iambicState = STATE_IEG, timer = 1, debounceTimer = 0,
            currentSymbol = SYMBOL_DIT, nextSymbol = SYMBOL_NONE,
            pressedKeys = PRESSED_ONE, repeatCycle = 0, keystate = 1,
            buffer = 0x40, bufctr = 7\<rparr>
           (KeyUp # concat (replicate 7 [KeyDown, KeyUp]))"
proof -
  let ?a = "(False, True) # replicate 15 (True, False)"
  let ?d = "replicate 16 (True, False)"
  have i: "(False, True) # replicate 15 (True, False) @ replicate 48 (True, False)
             = ?a @ ?d @ ?d @ ?d @ []"
    by (simp add: replicate_add [symmetric])
  show ?thesis
    unfolding keyed_def i
    by (simp only: heartbeats_chunk [OF dah_then_dit] heartbeats_chunk [OF two_dits]
                   heartbeats.simps fst_conv snd_conv)
       (simp add: replicate_numeral)
qed

lemma eight_keyed:
  "keyed ((False, True) # replicate 15 (True, False) @ replicate 56 (True, False)) =
     keyer \<lparr>iambicState = STATE_IEG, timer = 1, debounceTimer = 0,
            currentSymbol = SYMBOL_DIT, nextSymbol = SYMBOL_NONE,
            pressedKeys = PRESSED_ONE, repeatCycle = 0, keystate = 1,
            buffer = 0x80, bufctr = 8\<rparr>
           (KeyUp # concat (replicate 8 [KeyDown, KeyUp]))"
proof -
  let ?a = "(False, True) # replicate 15 (True, False)"
  let ?d = "replicate 16 (True, False)"
  let ?e = "replicate 8 (True, False)"
  have i: "(False, True) # replicate 15 (True, False) @ replicate 56 (True, False)
             = ?a @ ?d @ ?d @ ?d @ ?e"
    by (simp add: replicate_add [symmetric])
  show ?thesis
    unfolding keyed_def i
    by (simp only: heartbeats_chunk [OF dah_then_dit] heartbeats_chunk [OF two_dits]
                   one_dit fst_conv snd_conv)
       (simp add: replicate_numeral)
qed

lemma dah_keyed:
  "keyed ((False, True) # released 17) =
     keyer \<lparr>iambicState = STATE_ICG, timer = 3, debounceTimer = 0,
            currentSymbol = SYMBOL_DAH, nextSymbol = SYMBOL_NONE,
            pressedKeys = PRESSED_NONE, repeatCycle = 0, keystate = 0,
            buffer = 1, bufctr = 1\<rparr> [KeyUp, KeyDown, KeyUp]"
  unfolding keyed_def started_50 keyer_eq released_def
  by (simp add: tick_defs header_def replicate_numeral)

lemma dah_gap:
  "keyed ((False, True) # released 19) =
     keyer \<lparr>iambicState = STATE_ICG, timer = 1, debounceTimer = 0,
            currentSymbol = SYMBOL_DAH, nextSymbol = SYMBOL_NONE,
            pressedKeys = PRESSED_NONE, repeatCycle = 0, keystate = 0,
            buffer = 1, bufctr = 1\<rparr> [KeyUp, KeyDown, KeyUp]"
  unfolding keyed_def started_50 keyer_eq released_def
  by (simp add: tick_defs header_def replicate_numeral)


lemma ninth_element:
  "init_reached header (True, False) ON
     (keyer \<lparr>iambicState = STATE_IEG, timer = 1, debounceTimer = 0,
             currentSymbol = SYMBOL_DIT, nextSymbol = SYMBOL_NONE,
             pressedKeys = PRESSED_ONE, repeatCycle = 0, keystate = 1,
             buffer = b, bufctr = n\<rparr> ev)
   \<and> \<not> decodes header (True, False)
     (keyer \<lparr>iambicState = STATE_IEG, timer = 1, debounceTimer = 0,
             currentSymbol = SYMBOL_DIT, nextSymbol = SYMBOL_NONE,
             pressedKeys = PRESSED_ONE, repeatCycle = 0, keystate = 1,
             buffer = b, bufctr = n\<rparr> ev)
   \<and> currentSymbol (fsm (fst (yackiambic header (True, False) ON
     (keyer \<lparr>iambicState = STATE_IEG, timer = 1, debounceTimer = 0,
             currentSymbol = SYMBOL_DIT, nextSymbol = SYMBOL_NONE,
             pressedKeys = PRESSED_ONE, repeatCycle = 0, keystate = 1,
             buffer = b, bufctr = n\<rparr> ev)))) = SYMBOL_DIT
   \<and> out (fst (yackiambic header (True, False) ON
     (keyer \<lparr>iambicState = STATE_IEG, timer = 1, debounceTimer = 0,
             currentSymbol = SYMBOL_DIT, nextSymbol = SYMBOL_NONE,
             pressedKeys = PRESSED_ONE, repeatCycle = 0, keystate = 1,
             buffer = b, bufctr = n\<rparr> ev))) = ev @ [KeyDown]"
  unfolding keyer_eq
  by (simp add: init_reached_def decodes_def tick_defs header_def)

lemma in_gap:
  "iambicState (fsm (sample_keys header (True, False) (keyed ((False, True) # released 17))))
     = STATE_ICG
   \<and> keystate (fsm (sample_keys header (True, False) (keyed ((False, True) # released 17))))
     = DITLATCH
   \<and> \<not> decodes header (True, False) (keyed ((False, True) # released 17))
   \<and> decodes header (False, False) (keyed ((False, True) # released 19))"
  unfolding dah_keyed dah_gap keyer_eq
  by (simp add: decodes_def sample_keys_def keylatch_def Let_def header_def
                DITLATCH_def DAHLATCH_def SQUEEZED_def PDLSWAP_def)

theorem accumulator_step_witness:
  "bufctr (fsm (keyed ((False, True) # replicate 15 (True, False) @ replicate 56 (True, False))))
     = 8
   \<and> buffer (fsm (keyed ((False, True) # replicate 15 (True, False) @ replicate 56 (True, False))))
     = 0x80
   \<and> init_reached header (True, False) ON
       (keyed ((False, True) # replicate 15 (True, False) @ replicate 56 (True, False)))
   \<and> bufctr (fsm (fst (yackiambic header (True, False) ON
       (keyed ((False, True) # replicate 15 (True, False) @ replicate 56 (True, False))))))
     = 9
   \<and> buffer (fsm (fst (yackiambic header (True, False) ON
       (keyed ((False, True) # replicate 15 (True, False) @ replicate 56 (True, False))))))
     = 0
   \<and> snd (yackiambic header (True, False) ON
       (keyed ((False, True) # replicate 15 (True, False) @ replicate 56 (True, False))))
     = 0
   \<and> init_reached header (True, False) ON
       (keyed ((False, True) # replicate 15 (True, False) @ replicate 48 (True, False)))
   \<and> unat (bufctr (fsm (keyed ((False, True) # replicate 15 (True, False)
                                 @ replicate 48 (True, False))))) < 8
   \<and> unat (buffer (fsm (keyed ((False, True) # replicate 15 (True, False)
                                 @ replicate 48 (True, False)))))
       < 2 ^ unat (bufctr (fsm (keyed ((False, True) # replicate 15 (True, False)
                                         @ replicate 48 (True, False)))))
   \<and> unat (buffer (fsm (fst (yackiambic header (True, False) ON
       (keyed ((False, True) # replicate 15 (True, False) @ replicate 48 (True, False)))))))
       div 2 = 64
   \<and> iambicState (fsm (sample_keys header (True, False) (keyed ((False, True) # released 17))))
       = STATE_ICG
   \<and> keystate (fsm (sample_keys header (True, False) (keyed ((False, True) # released 17))))
       = DITLATCH
   \<and> out (fst (yackiambic header (True, False) ON (keyed ((False, True) # released 17))))
       = [KeyUp, KeyDown, KeyUp, KeyDown]
   \<and> bufctr (fsm (fst (yackiambic header (True, False) ON (keyed ((False, True) # released 17)))))
       = 2
   \<and> buffer (fsm (fst (yackiambic header (True, False) ON (keyed ((False, True) # released 17)))))
       = 2
   \<and> decodes header (False, False) (keyed ((False, True) # released 19))
   \<and> bufctr (fsm (fst (yackiambic header (False, False) ON (keyed ((False, True) # released 19)))))
       = 0
   \<and> snd (yackiambic header (False, False) ON (keyed ((False, True) # released 19)))
       = of_char CHR ''T''"
proof -
  let ?s8 = "keyed ((False, True) # replicate 15 (True, False) @ replicate 56 (True, False))"
  let ?s7 = "keyed ((False, True) # replicate 15 (True, False) @ replicate 48 (True, False))"
  let ?sg = "keyed ((False, True) # released 17)"
  let ?sd = "keyed ((False, True) # released 19)"
  have a8: "bufctr (fsm ?s8) = 8" "buffer (fsm ?s8) = 0x80"
    by (simp_all add: eight_keyed keyer_eq)
  have i8: "init_reached header (True, False) ON ?s8" "\<not> decodes header (True, False) ?s8"
    "currentSymbol (fsm (fst (yackiambic header (True, False) ON ?s8))) = SYMBOL_DIT"
    unfolding eight_keyed using ninth_element by blast+
  have w8: "\<not> word_ends header (True, False) ?s8"
    unfolding eight_keyed keyer_eq
    by (simp add: word_ends_def sample_keys_def keylatch_def Let_def)
  note t8 = accumulator_step [of header "(True, False)" ON ?s8 0 0]
  have r8: "bufctr (fsm (fst (yackiambic header (True, False) ON ?s8))) = 9"
    "buffer (fsm (fst (yackiambic header (True, False) ON ?s8))) = 0"
    "snd (yackiambic header (True, False) ON ?s8) = 0"
    using t8 by (simp_all add: i8 w8 a8)
  have a7: "bufctr (fsm ?s7) = 7" "buffer (fsm ?s7) = 0x40"
    by (simp_all add: seven_keyed keyer_eq)
  have i7: "init_reached header (True, False) ON ?s7"
    unfolding seven_keyed using ninth_element by blast
  have h7: "unat (bufctr (fsm ?s7)) < 8" "unat (buffer (fsm ?s7)) < 2 ^ unat (bufctr (fsm ?s7))"
    by (simp_all add: a7)
  note t7 = accumulator_step [of header "(True, False)" ON ?s7 0 0]
  have r7: "unat (buffer (fsm (fst (yackiambic header (True, False) ON ?s7)))) div 2 = 64"
    using t7 i7 h7 by (simp add: a7)
  have ag: "bufctr (fsm ?sg) = 1" "buffer (fsm ?sg) = 1" "out ?sg = [KeyUp, KeyDown, KeyUp]"
    by (simp_all add: dah_keyed keyer_eq)
  have hg: "iambicState (fsm (sample_keys header (True, False) ?sg)) = STATE_ICG"
    "keystate (fsm (sample_keys header (True, False) ?sg)) = DITLATCH"
    "\<not> decodes header (True, False) ?sg"
    using in_gap by blast+
  note tg = accumulator_step [of header "(True, False)" ON ?sg 0 0]
  have ig: "init_reached header (True, False) ON ?sg"
    "out (fst (yackiambic header (True, False) ON ?sg)) = [KeyUp, KeyDown, KeyUp, KeyDown]"
    "currentSymbol (fsm (fst (yackiambic header (True, False) ON ?sg))) = SYMBOL_DIT"
    using tg hg(1,2) by (simp_all add: ag DITLATCH_def DAHLATCH_def)
  have rg: "bufctr (fsm (fst (yackiambic header (True, False) ON ?sg))) = 2"
    "buffer (fsm (fst (yackiambic header (True, False) ON ?sg))) = 2"
    using tg by (simp_all add: ig hg(3) ag)
  have ad: "bufctr (fsm ?sd) = 1" "buffer (fsm ?sd) = 1"
    by (simp_all add: dah_gap keyer_eq)
  have hd: "decodes header (False, False) ?sd"
    using in_gap by blast
  note td = accumulator_step [of header "(False, False)" ON ?sd 0 0]
  have rd: "bufctr (fsm (fst (yackiambic header (False, False) ON ?sd))) = 0"
    "snd (yackiambic header (False, False) ON ?sd) = of_char CHR ''T''"
    using td by (simp_all add: hd ad shl_def morsechar_def morse_def)
  show ?thesis
    using a8 i8(1) r8 i7 h7 r7 hg(1,2) ig(2) rg hd rd by (simp only: simp_thms)
qed

text \<open>
  C4 as stated fails. A dah and eight dits are keyed without a pause, at 4 heartbeats per
  dot. After the dah the accumulator holds the bit 1. After the ninth element the count
  is 9, beyond the eight bits of a pattern, the byte is 0, so the dah is lost, and every
  one of the 80 heartbeats has returned 0: nothing tells the caller.
\<close>

theorem accumulator_counterexample:
  "buffer (fsm (fst (heartbeats header ON ((False, True) # replicate 15 (True, False))
                      (started 50 IAMBICB)))) = 1
   \<and> bufctr (fsm (fst (heartbeats header ON
                 ((False, True) # replicate 15 (True, False) @ replicate 48 (True, False)
                   @ replicate 9 (True, False) @ released 7)
                 (started 50 IAMBICB)))) = 9
   \<and> buffer (fsm (fst (heartbeats header ON
                 ((False, True) # replicate 15 (True, False) @ replicate 48 (True, False)
                   @ replicate 9 (True, False) @ released 7)
                 (started 50 IAMBICB)))) = 0
   \<and> snd (heartbeats header ON
            ((False, True) # replicate 15 (True, False) @ replicate 48 (True, False)
              @ replicate 9 (True, False) @ released 7)
            (started 50 IAMBICB)) = replicate 80 0
   \<and> out (fst (heartbeats header ON
                 ((False, True) # replicate 15 (True, False) @ replicate 48 (True, False)
                   @ replicate 9 (True, False) @ released 7)
                 (started 50 IAMBICB)))
       = KeyUp # concat (replicate 9 [KeyDown, KeyUp])"
proof -
  let ?a = "(False, True) # replicate 15 (True, False)"
  let ?d = "replicate 16 (True, False)"
  let ?z = "replicate 9 (True, False) @ released 7"
  have i: "(False, True) # replicate 15 (True, False) @ replicate 48 (True, False)
             @ replicate 9 (True, False) @ released 7 = ?a @ ?d @ ?d @ ?d @ ?z"
    by (simp add: replicate_add [symmetric])
  have o: "(256 :: byte) = 0" by simp
  have r: "heartbeats header ON (?a @ ?d @ ?d @ ?d @ ?z) (started 50 IAMBICB) =
     (keyer \<lparr>iambicState = STATE_IEG, timer = 1, debounceTimer = 0,
             currentSymbol = SYMBOL_DIT, nextSymbol = SYMBOL_NONE,
             pressedKeys = PRESSED_NONE, repeatCycle = 0, keystate = 0,
             buffer = 0, bufctr = 9\<rparr>
            (KeyUp # concat (replicate 9 [KeyDown, KeyUp])),
      replicate 80 0)"
    by (simp only: heartbeats_chunk [OF dah_then_dit] heartbeats_chunk [OF two_dits]
                   two_dits_released fst_conv snd_conv)
       (simp add: replicate_numeral o)
  show ?thesis
    unfolding i r using dah_then_dit by (simp add: keyer_eq)
qed

subsection \<open>Sending a string\<close>

lemma sent_sent: "sent es (sent ds s) = sent (ds @ es) s"
  by (simp add: sent_def)

lemma sent_nil: "sent [] s = s"
  by (simp add: sent_def)

lemma sent_fields:
  "volflags (sent es s) = volflags s \<and> farnsworth (sent es s) = farnsworth s
   \<and> out (sent es s) = out s @ es"
  by (simp add: sent_def)

lemma yackfarns_loop_sent: "yackfarns_loop n s = sent (replicate n (Delay 1)) s"
proof (induction n arbitrary: s)
  case 0
  then show ?case by (simp add: sent_def)
next
  case (Suc n)
  have "Delay 1 # replicate n (Delay 1) = replicate n (Delay 1) @ [Delay 1]"
    by (simp add: replicate_append_same)
  then show ?case
    using Suc by (simp add: yackdelay_def sent_def)
qed

lemma yackchar_tail_sent: "yackchar_tail s = sent (tail_events (unat (farnsworth s))) s"
  by (simp add: yackchar_tail_def yackfarns_def yackfarns_loop_sent yackdelay_def sent_def
                tail_events_def)

lemma play_sent:
  "yackdelay (word_of_int IEGLEN)
     (if code AND 0x80 \<noteq> 0 then yackplay DAH s else yackplay DIT s) = sent (play_events code) s"
  by (simp add: yackplay_def yackdelay_def key_def sent_def play_events_def Let_def
                DIT_def DAH_def UP_def DOWN_def)

lemma clear_latch:
  fixes v :: byte
  assumes "v AND CKLATCH = 0"
  shows "v AND NOT CKLATCH = v"
proof -
  have "v = v AND (CKLATCH OR NOT CKLATCH)" by simp
  also have "\<dots> = (v AND CKLATCH) OR (v AND NOT CKLATCH)"
    by (simp only: bit.conj_disj_distrib)
  also have "\<dots> = v AND NOT CKLATCH" using assms by simp
  finally show ?thesis by simp
qed

lemma set_latch: "((v :: byte) OR CKLATCH) AND CKLATCH = CKLATCH"
  by (simp add: bit.conj_disj_distrib2)

lemma poll_open:
  assumes "volflags s AND CKLATCH = 0"
  shows "yackctrlkey cfg mode Open s = Some (False, s)"
  using assms by (simp add: yackctrlkey_def Let_def clear_latch)

lemma yacksave_keeps: "out (yacksave cfg s) = out s \<and> farnsworth (yacksave cfg s) = farnsworth s"
  by (simp add: yacksave_def)

lemma wait_free: "\<not> touched ps \<Longrightarrow> wait_release cfg ps (v, s) = (v, s)"
  by (induction ps) auto

lemma poll_closed:
  assumes "\<not> touched ps"
  shows "\<exists>s'. yackctrlkey cfg mode (Closed ps) s = Some (True, s') \<and> out s' = out s
        \<and> farnsworth s' = farnsworth s
        \<and> (mode \<noteq> TRUE \<longrightarrow> volflags s' AND CKLATCH \<noteq> 0)"
  by (simp add: yackctrlkey_def Let_def set_latch yacksave_keeps yackinhibit_def ON_def
                wait_free [OF assms])
     (simp add: CKLATCH_def)

lemma poll_latched:
  assumes "volflags s AND CKLATCH \<noteq> 0" "paddle_free p"
  shows "\<exists>s'. yackctrlkey cfg mode p s = Some (True, s') \<and> out s' = out s"
proof (cases p)
  case Open
  then show ?thesis using assms(1) by (simp add: yackctrlkey_def Let_def)
next
  case (Closed ps)
  then show ?thesis using poll_closed [of ps cfg mode s] assms(2) by auto
next
  case Stuck
  then show ?thesis using assms(2) by simp
qed

lemma yackspeed_events:
  "out (yackspeed cfg dir WPMSPEED s) = out s @ chirp (unat (farnsworth s))
   \<and> farnsworth (yackspeed cfg dir WPMSPEED s) = farnsworth s"
  by (simp add: yackspeed_def Let_def yackfarns_def yackfarns_loop_sent sent_def yackplay_def
                yackdelay_def key_def chirp_def WPMSPEED_def FARNSWORTH_def
                DIT_def DAH_def UP_def DOWN_def)


lemma wait_events:
  "\<exists>v' s'. wait_release cfg ps (v, s) = (v', s')
     \<and> out s' = out s @ speed_events (unat (farnsworth s)) ps
     \<and> farnsworth s' = farnsworth s
     \<and> (touched ps \<longrightarrow> v' AND CKLATCH = 0)
     \<and> (v AND CKLATCH = 0 \<longrightarrow> v' AND CKLATCH = 0)"
proof (induction ps arbitrary: v s)
  case Nil
  then show ?case by simp
next
  case (Cons p ps)
  obtain dit dah where p: "p = (dit, dah)" by (cases p)
  have n: "(w AND NOT CKLATCH) AND CKLATCH = 0" for w :: byte
    by (simp add: and.assoc)
  define v1 where "v1 = (if dit then v AND NOT CKLATCH else v)"
  define s1 where "s1 = (if dit then yackspeed cfg DOWN WPMSPEED s else s)"
  define v2 where "v2 = (if dah then v1 AND NOT CKLATCH else v1)"
  define s2 where "s2 = (if dah then yackspeed cfg UP WPMSPEED s1 else s1)"
  have e: "wait_release cfg (p # ps) (v, s) = wait_release cfg ps (v2, s2)"
    by (simp add: p v1_def s1_def v2_def s2_def)
  have f1: "farnsworth s1 = farnsworth s"
    and o1: "out s1 = out s @ (if dit then chirp (unat (farnsworth s)) else [])"
    by (simp_all add: s1_def yackspeed_events)
  have f2: "farnsworth s2 = farnsworth s"
    and o2: "out s2 = out s @ (if dit then chirp (unat (farnsworth s)) else [])
                        @ (if dah then chirp (unat (farnsworth s)) else [])"
    by (simp_all add: s2_def yackspeed_events f1 o1)
  have c: "dit \<or> dah \<Longrightarrow> v2 AND CKLATCH = 0"
    and k: "v AND CKLATCH = 0 \<Longrightarrow> v2 AND CKLATCH = 0"
    by (auto simp: v1_def v2_def n and.assoc)
  obtain v' s' where r: "wait_release cfg ps (v2, s2) = (v', s')"
    "out s' = out s2 @ speed_events (unat (farnsworth s2)) ps"
    "farnsworth s' = farnsworth s2"
    "touched ps \<longrightarrow> v' AND CKLATCH = 0"
    "v2 AND CKLATCH = 0 \<longrightarrow> v' AND CKLATCH = 0"
    using Cons.IH [of v2 s2] by blast
  show ?case
    unfolding e using r c k by (auto simp: p f2 o2)
qed

lemma poll_touched:
  assumes "touched ps"
  shows "\<exists>s'. yackctrlkey cfg TRUE (Closed ps) s = Some (False, s')
        \<and> out s' = out s @ speed_events (unat (farnsworth s)) ps
        \<and> farnsworth s' = farnsworth s \<and> volflags s' AND CKLATCH = 0"
proof -
  let ?s0 = "yackinhibit ON s"
  have i: "out ?s0 = out s" "farnsworth ?s0 = farnsworth s"
    by (simp_all add: yackinhibit_def ON_def)
  obtain v' s' where r: "wait_release cfg ps (volflags s OR CKLATCH, ?s0) = (v', s')"
    "out s' = out s @ speed_events (unat (farnsworth s)) ps"
    "farnsworth s' = farnsworth s" "v' AND CKLATCH = 0"
    using wait_events [of cfg ps "volflags s OR CKLATCH" ?s0] assms by (auto simp: i)
  have n: "(w AND NOT CKLATCH) AND CKLATCH = 0" for w :: byte
    by (simp add: and.assoc)
  show ?thesis
    using r by (simp add: yackctrlkey_def Let_def yacksave_keeps n)
qed


lemma double_zero:
  fixes c :: byte
  assumes "push_bit 1 c = 0"
  shows "c = 0 \<or> c = 0x80"
proof -
  have "unat (push_bit 1 c) = (2 * unat c) mod 256"
    by (simp add: push_bit_eq_mult unat_word_ariths mult.commute)
  then have "(2 * unat c) mod 256 = 0" using assms by simp
  moreover have "unat c < 256" using unsigned_less [of c, where ?'a = nat] by simp
  ultimately have "unat c = 0 \<or> unat c = 128" by presburger
  then show ?thesis
    by (simp add: word_unat_eq_iff)
qed

lemma loop_done: "yackchar_loop cfg 0x80 q s = Some (q, yackchar_tail s)"
  by (cases q) simp_all

lemma loop_step_open:
  assumes "volflags s AND CKLATCH = 0" "code \<noteq> 0x80"
  shows "yackchar_loop cfg code (Open # ps) s
           = yackchar_loop cfg (push_bit 1 code) ps (sent (play_events code) s)"
  using assms by (simp add: poll_open play_sent Let_def)

lemma shift_again: "push_bit n (push_bit 1 (code :: byte)) = push_bit (Suc n) code"
  by (simp add: push_bit_eq_mult mult.commute mult.left_commute)

text \<open>The element loop with the button open at every check.\<close>

lemma loop_open:
  "volflags s AND CKLATCH = 0 \<Longrightarrow> code \<noteq> 0x80 \<Longrightarrow> code \<noteq> 0 \<Longrightarrow> push_bit n code = 0 \<Longrightarrow>
   yackchar_loop cfg code
     (replicate (length (element_units n code (tail_events (unat (farnsworth s))))) Open @ q) s
   = Some (q, sent (concat (element_units n code (tail_events (unat (farnsworth s))))) s)"
proof (induction n arbitrary: code s)
  case 0
  then show ?case by simp
next
  case (Suc n)
  let ?t = "tail_events (unat (farnsworth s))"
  let ?s1 = "sent (play_events code) s"
  have f1: "farnsworth ?s1 = farnsworth s" and l1: "volflags ?s1 AND CKLATCH = 0"
    using Suc.prems(1) by (simp_all add: sent_fields)
  show ?case
  proof (cases "push_bit 1 code = 0x80")
    case True
    have "yackchar_loop cfg code (Open # q) s = Some (q, yackchar_tail ?s1)"
      using loop_step_open [OF Suc.prems(1,2), of cfg q] True by (simp only: loop_done)
    then show ?thesis
      using True by (simp add: yackchar_tail_sent f1 sent_sent)
  next
    case False
    have nz: "push_bit 1 code \<noteq> 0"
      using double_zero [of code] Suc.prems(2,3) by blast
    have z: "push_bit n (push_bit 1 code) = 0"
      using Suc.prems(4) by (simp only: shift_again)
    note ih = Suc.IH [OF l1 False nz z, unfolded f1]
    have "yackchar_loop cfg code
            (Open # replicate (length (element_units n (push_bit 1 code) ?t)) Open @ q) s
          = Some (q, sent (concat (element_units n (push_bit 1 code) ?t)) ?s1)"
      using loop_step_open [OF Suc.prems(1,2), of cfg] ih by simp
    then show ?thesis
      using False by (simp add: sent_sent)
  qed
qed

text \<open>
  The element loop with the button closed, and no paddle with it, at check number \<open>j\<close>.
\<close>

lemma loop_cancel:
  "volflags s AND CKLATCH = 0 \<Longrightarrow> \<not> touched ws \<Longrightarrow> code \<noteq> 0x80 \<Longrightarrow> code \<noteq> 0 \<Longrightarrow>
   push_bit n code = 0 \<Longrightarrow>
   j < length (element_units n code (tail_events (unat (farnsworth s)))) \<Longrightarrow>
   \<exists>s'. (\<forall>rest. yackchar_loop cfg code (replicate j Open @ Closed ws # rest) s = Some (rest, s'))
        \<and> out s' = out s @ concat (take j (element_units n code (tail_events (unat (farnsworth s)))))
        \<and> farnsworth s' = farnsworth s
        \<and> volflags s' AND CKLATCH \<noteq> 0"
proof (induction n arbitrary: code s j)
  case 0
  then show ?case by simp
next
  case (Suc n)
  let ?t = "tail_events (unat (farnsworth s))"
  let ?s1 = "sent (play_events code) s"
  have f1: "farnsworth ?s1 = farnsworth s" and l1: "volflags ?s1 AND CKLATCH = 0"
    and o1: "out ?s1 = out s @ play_events code"
    using Suc.prems(1) by (simp_all add: sent_fields)
  show ?case
  proof (cases j)
    case 0
    obtain s' where "yackctrlkey cfg FALSE (Closed ws) s = Some (True, s')" "out s' = out s"
      "farnsworth s' = farnsworth s" "volflags s' AND CKLATCH \<noteq> 0"
      using poll_closed [OF Suc.prems(2), of cfg FALSE s] by (auto simp: FALSE_def TRUE_def)
    then show ?thesis
      using 0 Suc.prems(3) by simp
  next
    case (Suc i)
    have n80: "push_bit 1 code \<noteq> 0x80"
      using Suc.prems(6) Suc by (auto split: if_splits)
    have nz: "push_bit 1 code \<noteq> 0"
      using double_zero [of code] Suc.prems(3,4) by blast
    have z: "push_bit n (push_bit 1 code) = 0"
      using Suc.prems(5) by (simp only: shift_again)
    have i: "i < length (element_units n (push_bit 1 code) (tail_events (unat (farnsworth ?s1))))"
      using Suc.prems(6) Suc n80 by (simp add: f1)
    obtain s' where s': "\<And>rest. yackchar_loop cfg (push_bit 1 code)
                            (replicate i Open @ Closed ws # rest) ?s1 = Some (rest, s')"
      "out s' = out ?s1 @ concat (take i (element_units n (push_bit 1 code) ?t))"
      "farnsworth s' = farnsworth s"
      "volflags s' AND CKLATCH \<noteq> 0"
      using Suc.IH [OF l1 Suc.prems(2) n80 nz z i] by (auto simp: f1)
    have "yackchar_loop cfg code (replicate j Open @ Closed ws # rest) s = Some (rest, s')" for rest
      using loop_step_open [OF Suc.prems(1,3), of cfg] s'(1) Suc by simp
    then show ?thesis
      using s'(2,3,4) o1 n80 Suc by auto
  qed
qed

text \<open>Every code that \<open>yackchar\<close> looks up is the bare stop bit or an entry of the table.\<close>

lemma spechar_scan_in:
  "code \<in> insert 0x80 (set morse) \<Longrightarrow> i + length xs + 36 \<le> length morse \<Longrightarrow>
   spechar_scan c i xs code \<in> insert 0x80 (set morse)"
proof (induction xs arbitrary: i code)
  case Nil
  then show ?case by simp
next
  case (Cons x xs)
  have "morse ! (i + 36) \<in> set morse"
    using Cons.prems(2) by (intro nth_mem) simp
  then have "(if c = x then morse ! (i + 36) else code) \<in> insert 0x80 (set morse)"
    using Cons.prems(1) by simp
  then show ?case
    using Cons.IH [of "if c = x then morse ! (i + 36) else code" "Suc i"] Cons.prems(2)
    by simp
qed

lemma table_entry:
  fixes c lo hi :: byte
  assumes "lo \<le> c" "c \<le> hi" "unat hi - unat lo + k < length morse"
  shows "morse ! (unat (c - lo) + k) \<in> set morse"
proof -
  have "unat (c - lo) = unat c - unat lo"
    using assms(1) by (simp add: unat_sub)
  moreover have "unat c \<le> unat hi"
    using assms(2) by (simp add: word_le_nat_alt)
  ultimately have "unat (c - lo) + k < length morse"
    using assms(3) by linarith
  then show ?thesis by (rule nth_mem)
qed

lemma yackchar_code_in: "yackchar_code c \<in> insert 0x80 (set morse)"
proof -
  have l: "length morse = 60" "length spechar = 24"
    by (simp_all add: morse_def spechar_def)
  have d: "morse ! unat (c - of_char CHR ''0'') \<in> set morse"
    if "of_char CHR ''0'' \<le> c" "c \<le> of_char CHR ''9''"
    using table_entry [OF that, of 0] by (simp add: l)
  have a: "morse ! (unat (c - of_char CHR ''a'') + 10) \<in> set morse"
    if "of_char CHR ''a'' \<le> c" "c \<le> of_char CHR ''z''"
    using table_entry [OF that, of 10] by (simp add: l)
  have b: "morse ! (unat (c - of_char CHR ''A'') + 10) \<in> set morse"
    if "of_char CHR ''A'' \<le> c" "c \<le> of_char CHR ''Z''"
    using table_entry [OF that, of 10] by (simp add: l)
  show ?thesis
    unfolding yackchar_code_def Let_def
    by (rule spechar_scan_in) (use d a b in \<open>auto simp: l\<close>)
qed

lemma yackchar_code_nonzero: "yackchar_code c \<noteq> 0"
proof -
  have "0 \<notin> set morse" by (simp add: morse_def)
  then show ?thesis using yackchar_code_in [of c] by auto
qed

text \<open>One character, after the check that precedes it found the button open.\<close>

lemma char_units_length: "0 < length (char_units c tail)"
  by (simp add: char_units_def)

lemma char_open:
  assumes "volflags s AND CKLATCH = 0"
  shows "yackchar cfg c
           (replicate (length (char_units c (tail_events (unat (farnsworth s)))) - 1) Open @ q) s
         = Some (q, sent (concat (char_units c (tail_events (unat (farnsworth s))))) s)"
proof -
  let ?t = "tail_events (unat (farnsworth s))"
  consider (space) "c = of_char CHR '' ''"
    | (none) "c \<noteq> of_char CHR '' ''" "yackchar_code c = 0x80"
    | (coded) "c \<noteq> of_char CHR '' ''" "yackchar_code c \<noteq> 0x80"
    by blast
  then show ?thesis
  proof cases
    case space
    then show ?thesis
      by (simp add: yackchar_def char_units_def yackdelay_def sent_def)
  next
    case none
    then show ?thesis
      by (simp add: yackchar_def char_units_def loop_done yackchar_tail_sent)
  next
    case coded
    have z: "push_bit 8 (yackchar_code c) = 0"
      by (rule bit_word_eqI) (simp add: bit_simps)
    show ?thesis
      using coded loop_open [OF assms coded(2) yackchar_code_nonzero z, of cfg q]
      by (simp add: yackchar_def char_units_def)
  qed
qed

lemma char_cancel:
  assumes "volflags s AND CKLATCH = 0" "\<not> touched ws"
    "Suc j < length (char_units c (tail_events (unat (farnsworth s))))"
  shows "\<exists>s'. (\<forall>rest. yackchar cfg c (replicate j Open @ Closed ws # rest) s = Some (rest, s'))
        \<and> out s' = out s @ concat (take (Suc j) (char_units c (tail_events (unat (farnsworth s)))))
        \<and> farnsworth s' = farnsworth s
        \<and> volflags s' AND CKLATCH \<noteq> 0"
proof -
  have n: "c \<noteq> of_char CHR '' ''" "yackchar_code c \<noteq> 0x80"
    using assms(3) by (auto simp: char_units_def split: if_splits)
  have z: "push_bit 8 (yackchar_code c) = 0"
    by (rule bit_word_eqI) (simp add: bit_simps)
  have j: "j < length (element_units 8 (yackchar_code c) (tail_events (unat (farnsworth s))))"
    using assms(3) n by (simp add: char_units_def)
  show ?thesis
    using n loop_cancel [OF assms(1,2) n(2) yackchar_code_nonzero z j, of cfg]
    by (simp add: yackchar_def char_units_def)
qed

text \<open>The string.\<close>

lemma string_end:
  "cs = [] \<or> hd cs = 0 \<Longrightarrow> yackstring cfg cs q s = Some (q, s)"
  by (cases cs; cases q) auto

lemma string_step_open:
  assumes "volflags s AND CKLATCH = 0" "c \<noteq> 0"
  shows "yackstring cfg (c # cs) (Open # ps) s =
           (case yackchar cfg c ps s of None \<Rightarrow> None | Some (ps, s) \<Rightarrow> yackstring cfg cs ps s)"
  using assms by (simp add: poll_open)

lemma string_open:
  "volflags s AND CKLATCH = 0 \<Longrightarrow>
   yackstring cfg cs
     (replicate (length (string_units cs (tail_events (unat (farnsworth s))))) Open @ q) s
   = Some (q, sent (concat (string_units cs (tail_events (unat (farnsworth s))))) s)"
proof (induction cs arbitrary: s)
  case Nil
  then show ?case by (simp add: sent_nil)
next
  case (Cons c cs)
  let ?t = "tail_events (unat (farnsworth s))"
  show ?case
  proof (cases "c = 0")
    case True
    then show ?thesis
      using string_end [of "c # cs" cfg q s] by (simp add: sent_nil)
  next
    case False
    let ?m = "length (char_units c ?t)"
    let ?s1 = "sent (concat (char_units c ?t)) s"
    have f1: "farnsworth ?s1 = farnsworth s" and l1: "volflags ?s1 AND CKLATCH = 0"
      using Cons.prems by (simp_all add: sent_fields)
    have m: "replicate ?m Open = Open # replicate (?m - 1) Open"
      using char_units_length [of c ?t] by (cases ?m) simp_all
    have "yackstring cfg (c # cs)
            (replicate (length (string_units (c # cs) ?t)) Open @ q) s
          = yackstring cfg (c # cs)
              (Open # replicate (?m - 1) Open @ replicate (length (string_units cs ?t)) Open @ q) s"
      using False m by (simp add: replicate_add)
    also have "\<dots> = yackstring cfg cs (replicate (length (string_units cs ?t)) Open @ q) ?s1"
      using char_open [OF Cons.prems, of cfg c "replicate (length (string_units cs ?t)) Open @ q"]
      by (simp only: string_step_open [OF Cons.prems False]) simp
    also have "\<dots> = Some (q, sent (concat (string_units cs ?t)) ?s1)"
      using Cons.IH [OF l1] by (simp only: f1)
    finally show ?thesis
      using False by (simp add: sent_sent)
  qed
qed

lemma string_units_empty: "string_units cs tail = [] \<Longrightarrow> cs = [] \<or> hd cs = 0"
  using char_units_length by (cases cs) (auto split: if_splits)

lemma string_cut:
  "volflags s AND CKLATCH = 0 \<Longrightarrow> \<not> touched ws \<Longrightarrow>
   k < length (string_units cs (tail_events (unat (farnsworth s)))) \<Longrightarrow>
   \<exists>s1. (\<forall>q. yackstring cfg cs (replicate k Open @ Closed ws # q) s
                = yackstring cfg (cut_rest cs (tail_events (unat (farnsworth s))) k) q s1)
        \<and> out s1 = out s @ concat (take k (string_units cs (tail_events (unat (farnsworth s)))))
        \<and> farnsworth s1 = farnsworth s
        \<and> (cut_rest cs (tail_events (unat (farnsworth s))) k = [] \<or> volflags s1 AND CKLATCH \<noteq> 0)"
proof (induction cs arbitrary: s k)
  case Nil
  then show ?case by simp
next
  case (Cons c cs)
  let ?t = "tail_events (unat (farnsworth s))"
  let ?m = "length (char_units c ?t)"
  have c0: "c \<noteq> 0" using Cons.prems(3) by (auto split: if_splits)
  have u: "string_units (c # cs) ?t = char_units c ?t @ string_units cs ?t"
    using c0 by simp
  consider (first) "k = 0" | (inside) "0 < k" "k < ?m" | (later) "?m \<le> k" by linarith
  then show ?case
  proof cases
    case first
    obtain s' where "yackctrlkey cfg TRUE (Closed ws) s = Some (True, s')" "out s' = out s"
      "farnsworth s' = farnsworth s"
      using poll_closed [OF Cons.prems(2), of cfg TRUE s] by auto
    then show ?thesis
      using first c0 by simp
  next
    case inside
    obtain j where j: "k = Suc j" using inside(1) by (cases k) simp_all
    obtain s1 where s1: "\<And>q. yackchar cfg c (replicate j Open @ Closed ws # q) s = Some (q, s1)"
      "out s1 = out s @ concat (take (Suc j) (char_units c ?t))"
      "farnsworth s1 = farnsworth s"
      "volflags s1 AND CKLATCH \<noteq> 0"
      using char_cancel [OF Cons.prems(1,2), of j c cfg] inside(2) j by auto
    have e: "yackstring cfg (c # cs) (replicate k Open @ Closed ws # q) s
               = yackstring cfg cs q s1" for q
      unfolding j
      by (simp only: replicate_Suc append_Cons string_step_open [OF Cons.prems(1) c0] s1(1))
         simp
    have t: "take k (string_units (c # cs) ?t) = take (Suc j) (char_units c ?t)"
      using inside(2) j c0 by simp
    have r: "cut_rest (c # cs) ?t k = cs"
      using inside c0 by simp
    show ?thesis
      unfolding e t r using s1(2,3,4) by blast
  next
    case later
    let ?s1 = "sent (concat (char_units c ?t)) s"
    have f1: "farnsworth ?s1 = farnsworth s" and l1: "volflags ?s1 AND CKLATCH = 0"
      and o1: "out ?s1 = out s @ concat (char_units c ?t)"
      using Cons.prems(1) by (simp_all add: sent_fields)
    have m: "replicate k Open = Open # replicate (?m - 1) Open @ replicate (k - ?m) Open"
    proof -
      have "k = Suc ((?m - 1) + (k - ?m))"
        using later char_units_length [of c ?t] by linarith
      then have "replicate k Open = replicate (Suc ((?m - 1) + (k - ?m))) Open" by simp
      then show ?thesis by (simp only: replicate_Suc replicate_add)
    qed
    have k': "k - ?m < length (string_units cs (tail_events (unat (farnsworth ?s1))))"
      using Cons.prems(3) later c0 by (simp add: f1)
    have e: "yackstring cfg (c # cs) (replicate k Open @ Closed ws # q) s
            = yackstring cfg cs (replicate (k - ?m) Open @ Closed ws # q) ?s1" for q
    proof -
      have "yackstring cfg (c # cs) (replicate k Open @ Closed ws # q) s
            = yackstring cfg (c # cs)
                (Open # replicate (?m - 1) Open @ replicate (k - ?m) Open @ Closed ws # q) s"
        by (subst m) simp
      also have "\<dots> = yackstring cfg cs (replicate (k - ?m) Open @ Closed ws # q) ?s1"
        using char_open [OF Cons.prems(1), of cfg c "replicate (k - ?m) Open @ Closed ws # q"]
        by (simp only: string_step_open [OF Cons.prems(1) c0]) simp
      finally show ?thesis .
    qed
    have t: "take k (string_units (c # cs) ?t)
               = char_units c ?t @ take (k - ?m) (string_units cs ?t)"
      using later c0 by simp
    have "0 < k"
      using later char_units_length [of c ?t] by linarith
    then have r: "cut_rest (c # cs) ?t k = cut_rest cs ?t (k - ?m)"
      using later c0 by simp
    show ?thesis
      unfolding e t r using Cons.IH [OF l1 Cons.prems(2) k'] by (auto simp: o1 f1)
  qed
qed


lemma string_latched:
  assumes "volflags s1 AND CKLATCH \<noteq> 0" "paddle_free p" "string_units cs tail \<noteq> []"
  shows "\<exists>s'. yackstring cfg cs (p # rest) s1 = Some (rest, s') \<and> out s' = out s1"
proof -
  obtain d ds where d: "cs = d # ds" "d \<noteq> 0"
    using assms(3) by (cases cs) (auto split: if_splits)
  obtain s' where "yackctrlkey cfg TRUE p s1 = Some (True, s')" "out s' = out s1"
    using poll_latched [OF assms(1,2), of cfg TRUE] by auto
  then show ?thesis using d by simp
qed

lemma string_resumed:
  assumes "touched vs" "string_units cs (tail_events (unat (farnsworth s1))) \<noteq> []"
  shows "\<exists>s'. yackstring cfg cs
                 (Closed vs # replicate (length (string_units cs (tail_events (unat (farnsworth s1)))) - 1)
                                 Open @ q) s1 = Some (q, s')
        \<and> out s' = out s1 @ speed_events (unat (farnsworth s1)) vs
                      @ concat (string_units cs (tail_events (unat (farnsworth s1))))"
proof -
  let ?t = "tail_events (unat (farnsworth s1))"
  let ?n = "length (string_units cs ?t)"
  obtain d ds where d: "cs = d # ds" "d \<noteq> 0"
    using assms(2) by (cases cs) (auto split: if_splits)
  obtain s2 where s2: "yackctrlkey cfg TRUE (Closed vs) s1 = Some (False, s2)"
    "out s2 = out s1 @ speed_events (unat (farnsworth s1)) vs"
    "farnsworth s2 = farnsworth s1" "volflags s2 AND CKLATCH = 0"
    using poll_touched [OF assms(1), of cfg s1] by auto
  have n: "replicate ?n Open = Open # replicate (?n - 1) Open"
    using assms(2) by (cases ?n) simp_all
  have "yackstring cfg cs (Closed vs # replicate (?n - 1) Open @ q) s1
          = (case yackchar cfg d (replicate (?n - 1) Open @ q) s2 of
               None \<Rightarrow> None | Some (ps, s) \<Rightarrow> yackstring cfg ds ps s)"
    using d s2(1) by simp
  also have "\<dots> = yackstring cfg cs (Open # replicate (?n - 1) Open @ q) s2"
    unfolding d(1) by (simp only: string_step_open [OF s2(4) d(2)])
  also have "\<dots> = yackstring cfg cs (replicate ?n Open @ q) s2"
    by (subst n) simp
  also have "\<dots> = Some (q, sent (concat (string_units cs ?t)) s2)"
    using string_open [OF s2(4), of cfg cs q] by (simp only: s2(3))
  finally show ?thesis
    using s2(2) by (simp add: sent_fields)
qed

text \<open>
  C3, as the code has it. With no press of the command key pending, \<open>yackstring\<close> sends
  the units of its schedule in order, one check of the key before each: before every
  character and again before every element of a character. When all checks find the
  button open, the whole schedule is sent. Let check number \<open>k\<close> be the first to find
  the button closed, with no paddle closed until its release. Then exactly the \<open>k\<close>
  units before that check have been sent so far: an element is never cut, and a
  character is cut between two of its elements when the check is one before an element.
  When the check is one before a character, or no character follows the one that was
  cut, the routine returns at once. Otherwise \<open>yackchar\<close> has returned with the latch
  set and \<open>yackstring\<close> makes one more check. When that finds the button open, or
  closed with no paddle closed, the routine returns and the rest is left unsent. When it
  finds the button closed together with a paddle, the speed is changed, the latch is
  dropped, and the characters after the one that was cut are sent.
\<close>

theorem sent_until_cancelled:
  assumes "volflags s AND CKLATCH = 0"
  shows "yackstring cfg cs
           (replicate (length (string_units cs (tail_events (unat (farnsworth s))))) Open @ q) s
         = Some (q, sent (concat (string_units cs (tail_events (unat (farnsworth s))))) s)
       \<and> (k < length (string_units cs (tail_events (unat (farnsworth s)))) \<and> \<not> touched ws \<longrightarrow>
            (string_units (cut_rest cs (tail_events (unat (farnsworth s))) k)
                          (tail_events (unat (farnsworth s))) = [] \<longrightarrow>
               (\<exists>s'. yackstring cfg cs (replicate k Open @ Closed ws # rest) s = Some (rest, s')
                  \<and> out s' = out s
                       @ concat (take k (string_units cs (tail_events (unat (farnsworth s)))))))
          \<and> (string_units (cut_rest cs (tail_events (unat (farnsworth s))) k)
                            (tail_events (unat (farnsworth s))) \<noteq> [] \<and> paddle_free p \<longrightarrow>
               (\<exists>s'. yackstring cfg cs (replicate k Open @ Closed ws # p # rest) s = Some (rest, s')
                  \<and> out s' = out s
                       @ concat (take k (string_units cs (tail_events (unat (farnsworth s)))))))
          \<and> (string_units (cut_rest cs (tail_events (unat (farnsworth s))) k)
                            (tail_events (unat (farnsworth s))) \<noteq> [] \<and> touched vs \<longrightarrow>
               (\<exists>s'. yackstring cfg cs
                        (replicate k Open @ Closed ws # Closed vs
                         # replicate (length (string_units
                               (cut_rest cs (tail_events (unat (farnsworth s))) k)
                               (tail_events (unat (farnsworth s)))) - 1) Open @ q) s
                      = Some (q, s')
                  \<and> out s' = out s
                       @ concat (take k (string_units cs (tail_events (unat (farnsworth s)))))
                       @ speed_events (unat (farnsworth s)) vs
                       @ concat (string_units (cut_rest cs (tail_events (unat (farnsworth s))) k)
                                              (tail_events (unat (farnsworth s)))))))"
proof -
  let ?t = "tail_events (unat (farnsworth s))"
  let ?r = "cut_rest cs ?t k"
  have a: "yackstring cfg cs (replicate (length (string_units cs ?t)) Open @ q) s
         = Some (q, sent (concat (string_units cs ?t)) s)"
    by (rule string_open [OF assms])
  have b: "(string_units ?r ?t = [] \<longrightarrow>
               (\<exists>s'. yackstring cfg cs (replicate k Open @ Closed ws # rest) s = Some (rest, s')
                  \<and> out s' = out s @ concat (take k (string_units cs ?t))))
          \<and> (string_units ?r ?t \<noteq> [] \<and> paddle_free p \<longrightarrow>
               (\<exists>s'. yackstring cfg cs (replicate k Open @ Closed ws # p # rest) s = Some (rest, s')
                  \<and> out s' = out s @ concat (take k (string_units cs ?t))))
          \<and> (string_units ?r ?t \<noteq> [] \<and> touched vs \<longrightarrow>
               (\<exists>s'. yackstring cfg cs
                        (replicate k Open @ Closed ws # Closed vs
                         # replicate (length (string_units ?r ?t) - 1) Open @ q) s
                      = Some (q, s')
                  \<and> out s' = out s @ concat (take k (string_units cs ?t))
                       @ speed_events (unat (farnsworth s)) vs
                       @ concat (string_units ?r ?t)))"
    if k: "k < length (string_units cs ?t)" and f: "\<not> touched ws"
  proof -
    obtain s1 where s1: "\<And>q. yackstring cfg cs (replicate k Open @ Closed ws # q) s
                               = yackstring cfg ?r q s1"
      "out s1 = out s @ concat (take k (string_units cs ?t))"
      "farnsworth s1 = farnsworth s"
      "?r = [] \<or> volflags s1 AND CKLATCH \<noteq> 0"
      using string_cut [OF assms f k, of cfg] by blast
    have b1: "\<exists>s'. yackstring cfg cs (replicate k Open @ Closed ws # rest) s = Some (rest, s')
                  \<and> out s' = out s @ concat (take k (string_units cs ?t))"
      if "string_units ?r ?t = []"
      using string_end [OF string_units_empty [OF that], of cfg rest s1] s1(2)
      by (simp only: s1(1)) simp
    have l: "volflags s1 AND CKLATCH \<noteq> 0" if "string_units ?r ?t \<noteq> []"
      using that s1(4) by auto
    have b2: "\<exists>s'. yackstring cfg cs (replicate k Open @ Closed ws # p # rest) s = Some (rest, s')
                  \<and> out s' = out s @ concat (take k (string_units cs ?t))"
      if n: "string_units ?r ?t \<noteq> []" and p: "paddle_free p"
      using string_latched [OF l [OF n] p n, of cfg rest] s1(2)
      by (simp only: s1(1))
    have b3: "\<exists>s'. yackstring cfg cs
                        (replicate k Open @ Closed ws # Closed vs
                         # replicate (length (string_units ?r ?t) - 1) Open @ q) s
                      = Some (q, s')
                  \<and> out s' = out s @ concat (take k (string_units cs ?t))
                       @ speed_events (unat (farnsworth s)) vs
                       @ concat (string_units ?r ?t)"
      if n: "string_units ?r ?t \<noteq> []" and p: "touched vs"
    proof -
      have n1: "string_units ?r (tail_events (unat (farnsworth s1))) \<noteq> []"
        using n by (simp add: s1(3))
      note r = string_resumed [OF p n1, of cfg q, unfolded s1(3)]
      show ?thesis
        unfolding s1(1) using r s1(2) by auto
    qed
    show ?thesis using b1 b2 b3 by blast
  qed
  show ?thesis using a b by blast
qed


lemma element_units_numeral:
  "element_units (numeral k) code tail =
     (if push_bit 1 code = 0x80 then [play_events code @ tail]
      else play_events code # element_units (pred_numeral k) (push_bit 1 code) tail)"
  by (simp add: numeral_eq_Suc)

lemma units_AB:
  "string_units (map of_char ''AB'') (tail_events 0) =
     [[], [KeyDown, Delay 1, KeyUp, Delay 1], [KeyDown, Delay 3, KeyUp, Delay 1, Delay 2],
      [], [KeyDown, Delay 3, KeyUp, Delay 1], [KeyDown, Delay 1, KeyUp, Delay 1],
      [KeyDown, Delay 1, KeyUp, Delay 1], [KeyDown, Delay 1, KeyUp, Delay 1, Delay 2]]"
  by (simp add: char_units_def yackchar_code_def spechar_def morse_def Let_def
                play_events_def tail_events_def element_units_numeral
                DITLEN_def DAHLEN_def IEGLEN_def ICGLEN_def)

lemma units_B:
  "string_units (map of_char ''B'') (tail_events 0) =
     [[], [KeyDown, Delay 3, KeyUp, Delay 1], [KeyDown, Delay 1, KeyUp, Delay 1],
      [KeyDown, Delay 1, KeyUp, Delay 1], [KeyDown, Delay 1, KeyUp, Delay 1, Delay 2]]"
  by (simp add: char_units_def yackchar_code_def spechar_def morse_def Let_def
                play_events_def tail_events_def element_units_numeral
                DITLEN_def DAHLEN_def IEGLEN_def ICGLEN_def)

lemma cut_AB:
  "cut_rest (map of_char ''AB'') (tail_events 0) 3 = []
   \<and> cut_rest (map of_char ''AB'') (tail_events 0) 2 = map of_char ''B''"
  by (simp add: char_units_def yackchar_code_def spechar_def morse_def Let_def
                play_events_def tail_events_def element_units_numeral
                DITLEN_def DAHLEN_def IEGLEN_def ICGLEN_def)

theorem sent_until_cancelled_witness:
  "volflags (started 15 IAMBICB) AND CKLATCH = 0
   \<and> yackstring header (map of_char ''AB'') (replicate 8 Open) (started 15 IAMBICB)
       = Some ([], sent [KeyDown, Delay 1, KeyUp, Delay 1, KeyDown, Delay 3, KeyUp, Delay 1, Delay 2,
                         KeyDown, Delay 3, KeyUp, Delay 1, KeyDown, Delay 1, KeyUp, Delay 1,
                         KeyDown, Delay 1, KeyUp, Delay 1, KeyDown, Delay 1, KeyUp, Delay 1, Delay 2]
                     (started 15 IAMBICB))
   \<and> \<not> touched [] \<and> paddle_free (Closed [(False, False)]) \<and> touched [(True, False)]
   \<and> 3 < length (string_units (map of_char ''AB'')
                        (tail_events (unat (farnsworth (started 15 IAMBICB)))))
   \<and> string_units (cut_rest (map of_char ''AB'')
                       (tail_events (unat (farnsworth (started 15 IAMBICB)))) 3)
                    (tail_events (unat (farnsworth (started 15 IAMBICB)))) = []
   \<and> (\<exists>s'. yackstring header (map of_char ''AB'')
               [Open, Open, Open, Closed [], Closed [(True, False)]] (started 15 IAMBICB)
             = Some ([Closed [(True, False)]], s')
          \<and> out s' = [KeyUp, KeyDown, Delay 1, KeyUp, Delay 1, KeyDown, Delay 3, KeyUp, Delay 1,
                       Delay 2])
   \<and> string_units (cut_rest (map of_char ''AB'')
                       (tail_events (unat (farnsworth (started 15 IAMBICB)))) 2)
                    (tail_events (unat (farnsworth (started 15 IAMBICB)))) \<noteq> []
   \<and> (\<exists>s'. yackstring header (map of_char ''AB'')
               [Open, Open, Closed [], Closed [(False, False)], Open] (started 15 IAMBICB)
             = Some ([Open], s')
          \<and> out s' = [KeyUp, KeyDown, Delay 1, KeyUp, Delay 1])
   \<and> (\<exists>s'. yackstring header (map of_char ''AB'')
               [Open, Open, Closed [], Closed [(True, False)], Open, Open, Open, Open]
               (started 15 IAMBICB)
             = Some ([], s')
          \<and> out s' = [KeyUp, KeyDown, Delay 1, KeyUp, Delay 1,
                       KeyDown, Delay 1, KeyUp, Delay 1, KeyDown, Delay 3, KeyUp, Delay 3,
                       KeyDown, Delay 3, KeyUp, Delay 1, KeyDown, Delay 1, KeyUp, Delay 1,
                       KeyDown, Delay 1, KeyUp, Delay 1, KeyDown, Delay 1, KeyUp, Delay 1, Delay 2])"
proof -
  let ?s = "started 15 IAMBICB"
  let ?AB = "map of_char ''AB'' :: byte list"
  have h: "volflags ?s AND CKLATCH = 0" by (simp add: started_15)
  have f: "unat (farnsworth ?s) = 0" and o: "out ?s = [KeyUp]" by (simp_all add: started_15)
  have p: "\<not> touched []" "paddle_free (Closed [(False, False)])" "touched [(True, False)]"
    by simp_all
  have c: "string_units (cut_rest ?AB (tail_events 0) 3) (tail_events 0) = []"
    "string_units (cut_rest ?AB (tail_events 0) 2) (tail_events 0) \<noteq> []"
    by (simp_all only: cut_AB units_B) simp_all
  have r: "replicate 8 Open @ [] = replicate 8 Open"
    "replicate 3 Open @ Closed [] # [Closed [(True, False)]]
       = [Open, Open, Open, Closed [], Closed [(True, False)]]"
    "replicate 2 Open @ Closed [] # Closed [(False, False)] # [Open]
       = [Open, Open, Closed [], Closed [(False, False)], Open]"
    "replicate 2 Open @ Closed [] # Closed [(True, False)] # replicate (5 - 1) Open @ []
       = [Open, Open, Closed [], Closed [(True, False)], Open, Open, Open, Open]"
    by (simp_all add: replicate_numeral)
  have k: "3 < length (string_units ?AB (tail_events 0))"
    "2 < length (string_units ?AB (tail_events 0))"
    by (simp_all only: units_AB) simp_all
  note t1 = sent_until_cancelled [OF h, where cfg = header and cs = ?AB and q = "[]" and k = 3
                                   and ws = "[]" and rest = "[Closed [(True, False)]]"
                                   and p = Open and vs = "[]", unfolded f]
  note t2 = sent_until_cancelled [OF h, where cfg = header and cs = ?AB and q = "[]" and k = 2
                                   and ws = "[]" and p = "Closed [(False, False)]"
                                   and rest = "[Open]" and vs = "[(True, False)]", unfolded f]
  have "yackstring header ?AB (replicate (length (string_units ?AB (tail_events 0))) Open @ []) ?s
          = Some ([], sent (concat (string_units ?AB (tail_events 0))) ?s)"
    using t1 by blast
  then have a1: "yackstring header ?AB (replicate 8 Open) ?s
       = Some ([], sent [KeyDown, Delay 1, KeyUp, Delay 1, KeyDown, Delay 3, KeyUp, Delay 1, Delay 2,
                         KeyDown, Delay 3, KeyUp, Delay 1, KeyDown, Delay 1, KeyUp, Delay 1,
                         KeyDown, Delay 1, KeyUp, Delay 1, KeyDown, Delay 1, KeyUp, Delay 1, Delay 2]
                     ?s)"
    unfolding units_AB by (simp add: replicate_numeral del: yackstring.simps)
  have "\<exists>s'. yackstring header ?AB (replicate 3 Open @ Closed [] # [Closed [(True, False)]]) ?s
               = Some ([Closed [(True, False)]], s')
            \<and> out s' = out ?s @ concat (take 3 (string_units ?AB (tail_events 0)))"
    using t1 k(1) p(1) c(1) by blast
  then have a2: "\<exists>s'. yackstring header ?AB
               [Open, Open, Open, Closed [], Closed [(True, False)]] ?s
             = Some ([Closed [(True, False)]], s')
          \<and> out s' = [KeyUp, KeyDown, Delay 1, KeyUp, Delay 1, KeyDown, Delay 3, KeyUp, Delay 1,
                       Delay 2]"
    unfolding units_AB r(2) o by (simp del: yackstring.simps)
  have "\<exists>s'. yackstring header ?AB (replicate 2 Open @ Closed [] # Closed [(False, False)] # [Open]) ?s
               = Some ([Open], s')
            \<and> out s' = out ?s @ concat (take 2 (string_units ?AB (tail_events 0)))"
    using t2 k(2) p(1,2) c(2) by blast
  then have a3: "\<exists>s'. yackstring header ?AB
               [Open, Open, Closed [], Closed [(False, False)], Open] ?s
             = Some ([Open], s')
          \<and> out s' = [KeyUp, KeyDown, Delay 1, KeyUp, Delay 1]"
    unfolding units_AB r(3) o by (simp del: yackstring.simps)
  have "\<exists>s'. yackstring header ?AB
                 (replicate 2 Open @ Closed [] # Closed [(True, False)]
                  # replicate (length (string_units (cut_rest ?AB (tail_events 0) 2)
                                                    (tail_events 0)) - 1) Open @ []) ?s
               = Some ([], s')
            \<and> out s' = out ?s @ concat (take 2 (string_units ?AB (tail_events 0)))
                         @ speed_events 0 [(True, False)]
                         @ concat (string_units (cut_rest ?AB (tail_events 0) 2) (tail_events 0))"
    using t2 k(2) p(1,3) c(2) by blast
  then have a4: "\<exists>s'. yackstring header ?AB
               [Open, Open, Closed [], Closed [(True, False)], Open, Open, Open, Open] ?s
             = Some ([], s')
          \<and> out s' = [KeyUp, KeyDown, Delay 1, KeyUp, Delay 1,
                       KeyDown, Delay 1, KeyUp, Delay 1, KeyDown, Delay 3, KeyUp, Delay 3,
                       KeyDown, Delay 3, KeyUp, Delay 1, KeyDown, Delay 1, KeyUp, Delay 1,
                       KeyDown, Delay 1, KeyUp, Delay 1, KeyDown, Delay 1, KeyUp, Delay 1, Delay 2]"
    unfolding conjunct2 [OF cut_AB] units_AB units_B o
    by (simp add: replicate_numeral chirp_def DITLEN_def DAHLEN_def IEGLEN_def ICGLEN_def
             del: yackstring.simps)
  show ?thesis
    using h a1 p k(1) c a2 a3 a4 unfolding f by (simp only: simp_thms)
qed

text \<open>
  C3 as stated fails: the letter A is a dit and a dah, and with the button found closed
  at the check before the dah only the dit is sent.
\<close>

theorem partial_character_counterexample:
  "map_option (out \<circ> snd)
     (yackstring header (map of_char ''A'') [Open, Open, Closed [], Open] (started 15 IAMBICB))
     = Some [KeyUp, KeyDown, Delay 1, KeyUp, Delay 1]
   \<and> map_option (out \<circ> snd)
     (yackstring header (map of_char ''A'') [Open, Open, Open] (started 15 IAMBICB))
     = Some [KeyUp, KeyDown, Delay 1, KeyUp, Delay 1, KeyDown, Delay 3, KeyUp, Delay 1, Delay 2]"
  unfolding started_15
  by (simp add: yackchar_def yackchar_code_def spechar_def morse_def Let_def yackctrlkey_def
                yackplay_def yackdelay_def key_def yackchar_tail_def yackfarns_def
                yackinhibit_def yacksave_def
                TRUE_def FALSE_def ON_def UP_def DOWN_def DIT_def DAH_def CKLATCH_def
                DIRTYFLAG_def TXKEY_def SIDETONE_def
                DITLEN_def DAHLEN_def IEGLEN_def ICGLEN_def)

subsection \<open>Recording cancelled\<close>
















end
